theory Spec2Isabelle
  imports Main "HOL-Library.Word" "HOL-Library.Multiset"
begin

unbundle bit_operations_syntax

section \<open>Execution model\<close>

text \<open>
  The package \<^verbatim>\<open>sync\<close> is modelled one call at a time: a call runs on the shared
  memory of its receiver with no other goroutine stepping in between its atomic
  operations, so an atomic operation acts on the memory the previous one left.  Every
  function returns the new memory together with the list, in program order, of the calls
  it made to \<^verbatim>\<open>sync/atomic\<close>, to the runtime semaphores and to user callbacks.

  The calls to \<^verbatim>\<open>internal/race\<close> are guarded by \<^verbatim>\<open>race.Enabled\<close> and only
  instrument the program; they are left out, except in \<^verbatim>\<open>Pool.Put\<close>, where the guarded
  branch can drop the item.
\<close>

datatype loc =
    State | Sema | Done | ReaderCount | ReaderWait | WriterSem | ReaderSem | Read | EntryP nat
  | In_w loc | In_m loc | In_mu loc

datatype event =
    AtomicAdd loc int
  | AtomicCAS loc bool
  | AtomicLoad loc
  | AtomicStore loc int
  | Semacquire loc bool nat
  | Semrelease loc bool nat
  | Invoke

fun relocate :: "(loc \<Rightarrow> loc) \<Rightarrow> event \<Rightarrow> event" where
  "relocate g (AtomicAdd l d) = AtomicAdd (g l) d"
| "relocate g (AtomicCAS l b) = AtomicCAS (g l) b"
| "relocate g (AtomicLoad l) = AtomicLoad (g l)"
| "relocate g (AtomicStore l v) = AtomicStore (g l) v"
| "relocate g (Semacquire l b k) = Semacquire (g l) b k"
| "relocate g (Semrelease l b k) = Semrelease (g l) b k"
| "relocate g Invoke = Invoke"

text \<open>
  How a call ends: it returns, it stops the program through the runtime's
  \<^verbatim>\<open>fatal\<close> or \<^verbatim>\<open>throw\<close>, or it parks the goroutine on a semaphore nobody
  releases.
\<close>

datatype 'a res = Ret 'a | Fatal string | Block

fun is_Semacquire :: "event \<Rightarrow> bool" where
  "is_Semacquire (Semacquire l b k) = True"
| "is_Semacquire e = False"

subsection \<open>The runtime's semaphore\<close>

text \<open>
  Modelled from the spec: the semaphore primitive of the scheduler is not part of the
  package (section 6: acquire blocks until a matching release is observed).  A semaphore
  is the \<^verbatim>\<open>uint32\<close> the package declares for it, counting the releases not yet
  consumed: a release adds one, an acquire takes one or blocks at zero.
\<close>

definition runtime_Semrelease :: "32 word \<Rightarrow> 32 word" where
  "runtime_Semrelease s = s + 1"

definition runtime_Semacquire :: "32 word \<Rightarrow> 32 word option" where
  "runtime_Semacquire s = (if s = 0 then None else Some (s - 1))"

definition CompareAndSwapInt32 :: "32 word \<Rightarrow> 32 word \<Rightarrow> 32 word \<Rightarrow> 32 word \<times> bool" where
  "CompareAndSwapInt32 cur old new = (if cur = old then (new, True) else (cur, False))"

section \<open>Mutex\<close>

record Mutex =
  state :: "32 word"
  sema :: "32 word"

definition mutexLocked :: "32 word" where "mutexLocked = 1"
definition mutexWoken :: "32 word" where "mutexWoken = 2"
definition mutexStarving :: "32 word" where "mutexStarving = 4"
definition mutexWaiterShift :: nat where "mutexWaiterShift = 3"
definition starvationThresholdNs :: int where "starvationThresholdNs = 1000000"

text \<open>\<^verbatim>\<open>Mutex.TryLock\<close>: the result, the mutex and the calls made.\<close>

definition Mutex_TryLock :: "Mutex \<Rightarrow> bool \<times> Mutex \<times> event list" where
  "Mutex_TryLock mx =
     (let old = state mx in
      if old AND (mutexLocked OR mutexStarving) \<noteq> 0 then (False, mx, [])
      else
        (case CompareAndSwapInt32 (state mx) old (old OR mutexLocked) of
           (s, swapped) \<Rightarrow>
             if \<not> swapped then (False, mx\<lparr>state := s\<rparr>, [AtomicCAS State False])
             else (True, mx\<lparr>state := s\<rparr>, [AtomicCAS State True])))"

text \<open>
  The loop of \<^verbatim>\<open>Mutex.unlockSlow\<close> in normal mode.  A failed compare-and-swap reloads
  the state and goes round again.
\<close>

function unlockSlow_loop :: "Mutex \<Rightarrow> 32 word \<Rightarrow> Mutex \<times> event list" where
  "unlockSlow_loop mx old =
     (if signed_drop_bit mutexWaiterShift old = 0
         \<or> old AND (mutexLocked OR mutexWoken OR mutexStarving) \<noteq> 0
      then (mx, [])
      else
        (let new = (old - push_bit mutexWaiterShift 1) OR mutexWoken in
         case CompareAndSwapInt32 (state mx) old new of
           (s, swapped) \<Rightarrow>
             if swapped
             then (mx\<lparr>state := s, sema := runtime_Semrelease (sema mx)\<rparr>,
                   [AtomicCAS State True, Semrelease Sema False 1])
             else
               (case unlockSlow_loop (mx\<lparr>state := s\<rparr>) s of
                  (mx', t) \<Rightarrow> (mx', AtomicCAS State False # t))))"
  by pat_completeness auto
termination
  by (relation "measure (\<lambda>(mx, old). if state mx = old then 0 else 1)")
     (auto simp: CompareAndSwapInt32_def split: if_splits)

definition unlockSlow :: "Mutex \<Rightarrow> 32 word \<Rightarrow> (Mutex \<times> event list) res" where
  "unlockSlow mx new =
     (if (new + mutexLocked) AND mutexLocked = 0
      then Fatal ''sync: unlock of unlocked mutex''
      else if new AND mutexStarving = 0
      then Ret (unlockSlow_loop mx new)
      else Ret (mx\<lparr>sema := runtime_Semrelease (sema mx)\<rparr>, [Semrelease Sema True 1]))"

definition Mutex_Unlock :: "Mutex \<Rightarrow> (Mutex \<times> event list) res" where
  "Mutex_Unlock mx =
     (let new = state mx - mutexLocked;
          mx1 = mx\<lparr>state := new\<rparr>
      in if new \<noteq> 0
         then (case unlockSlow mx1 new of
                 Ret (mx2, t) \<Rightarrow> Ret (mx2, AtomicAdd State (- 1) # t)
               | Fatal msg \<Rightarrow> Fatal msg
               | Block \<Rightarrow> Block)
         else Ret (mx1, [AtomicAdd State (- 1)]))"

subsection \<open>Lock\<close>

text \<open>
  What \<^verbatim>\<open>lockSlow\<close> asks of the runtime: whether the scheduler lets the goroutine
  spin at a given iteration, and the clock, as the value of each successive reading.
\<close>

record runtime =
  canSpin_sched :: "nat \<Rightarrow> bool"
  nanotime :: "nat \<Rightarrow> 64 word"

definition active_spin :: nat where "active_spin = 4"

text \<open>
  Modelled from the spec: \<^verbatim>\<open>runtime_canSpin\<close> is the runtime's (section 4.1: an
  arriving task spins only while the spin budget allows it).  The budget is the runtime's
  constant of four rounds; the rest of its answer depends on the scheduler.
\<close>

definition runtime_canSpin :: "runtime \<Rightarrow> nat \<Rightarrow> bool" where
  "runtime_canSpin rt i = (i < active_spin \<and> canSpin_sched rt i)"

fun prepend :: "event list \<Rightarrow> ('a \<times> event list) res \<Rightarrow> ('a \<times> event list) res" where
  "prepend t0 (Ret (a, t)) = Ret (a, t0 @ t)"
| "prepend t0 (Fatal msg) = Fatal msg"
| "prepend t0 Block = Block"

text \<open>
  The loop of \<^verbatim>\<open>Mutex.lockSlow\<close>.  Its variables are those of the source; \<open>k\<close>
  counts the readings of the clock made so far.  \<^verbatim>\<open>runtime_doSpin\<close> only burns
  processor time and leaves no mark.
\<close>

function lockSlow_loop ::
  "runtime \<Rightarrow> Mutex \<Rightarrow> 64 word \<Rightarrow> bool \<Rightarrow> bool \<Rightarrow> nat \<Rightarrow> 32 word \<Rightarrow> nat
     \<Rightarrow> (Mutex \<times> event list) res" where
  "lockSlow_loop rt mx waitStartTime starving awoke iter old k =
     (if old AND (mutexLocked OR mutexStarving) = mutexLocked \<and> runtime_canSpin rt iter
      then
        (if \<not> awoke \<and> old AND mutexWoken = 0 \<and> signed_drop_bit mutexWaiterShift old \<noteq> 0
         then
           (case CompareAndSwapInt32 (state mx) old (old OR mutexWoken) of
              (s, swapped) \<Rightarrow>
                prepend [AtomicCAS State swapped]
                  (lockSlow_loop rt (mx\<lparr>state := s\<rparr>) waitStartTime starving swapped
                     (iter + 1) s k))
         else lockSlow_loop rt mx waitStartTime starving awoke (iter + 1) (state mx) k)
      else
        (let new1 = (if old AND mutexStarving = 0 then old OR mutexLocked else old);
             new2 = (if old AND (mutexLocked OR mutexStarving) \<noteq> 0
                     then new1 + push_bit mutexWaiterShift 1 else new1);
             new3 = (if starving \<and> old AND mutexLocked \<noteq> 0
                     then new2 OR mutexStarving else new2)
         in if awoke \<and> new3 AND mutexWoken = 0
            then Fatal ''sync: inconsistent mutex state''
            else
              (let new = (if awoke then new3 AND NOT mutexWoken else new3) in
               case CompareAndSwapInt32 (state mx) old new of
                 (s, swapped) \<Rightarrow>
                   if swapped
                   then
                     (if old AND (mutexLocked OR mutexStarving) = 0
                      then Ret (mx\<lparr>state := s\<rparr>, [AtomicCAS State True])
                      else
                        (let queueLifo = (waitStartTime \<noteq> 0);
                             wst = (if waitStartTime = 0 then nanotime rt k else waitStartTime);
                             k1 = (if waitStartTime = 0 then k + 1 else k)
                         in case runtime_Semacquire (sema mx) of
                              None \<Rightarrow> Block
                            | Some sm \<Rightarrow>
                                (let mx2 = mx\<lparr>state := s, sema := sm\<rparr>;
                                     starving1 =
                                       (starving
                                        \<or> starvationThresholdNs < sint (nanotime rt k1 - wst));
                                     k2 = (if starving then k1 else k1 + 1);
                                     old1 = state mx2
                                 in if old1 AND mutexStarving \<noteq> 0
                                    then
                                      (if old1 AND (mutexLocked OR mutexWoken) \<noteq> 0
                                          \<or> signed_drop_bit mutexWaiterShift old1 = 0
                                       then Fatal ''sync: inconsistent mutex state''
                                       else
                                         (let delta0 = mutexLocked - push_bit mutexWaiterShift 1;
                                              delta =
                                                (if \<not> starving1
                                                    \<or> signed_drop_bit mutexWaiterShift old1 = 1
                                                 then delta0 - mutexStarving else delta0)
                                          in Ret (mx2\<lparr>state := state mx2 + delta\<rparr>,
                                                  [AtomicCAS State True,
                                                   Semacquire Sema queueLifo 1,
                                                   AtomicAdd State (sint delta)])))
                                    else
                                      prepend [AtomicCAS State True, Semacquire Sema queueLifo 1]
                                        (lockSlow_loop rt mx2 wst starving1 True 0 old1
                                           k2))))
                   else
                     prepend [AtomicCAS State False]
                       (lockSlow_loop rt (mx\<lparr>state := s\<rparr>) waitStartTime starving awoke
                          iter s k))))"
  by pat_completeness auto
termination
proof (relation "measures
    [\<lambda>(rt, mx, waitStartTime, starving, awoke, iter, old, k). unat (sema mx),
     \<lambda>(rt, mx, waitStartTime, starving, awoke, iter, old, k). if state mx = old then 0 else 1,
     \<lambda>(rt, mx, waitStartTime, starving, awoke, iter, old, k). active_spin - iter]",
    goal_cases)
  case 1
  show ?case by simp
next
  case (2 rt mx waitStartTime starving awoke iter old k s swapped)
  from 2(1) have i: "iter < active_spin" by (simp add: runtime_canSpin_def)
  from 2(3) have s: "s = (if state mx = old then old OR mutexWoken else state mx)"
    by (simp add: CompareAndSwapInt32_def split: if_splits)
  show ?case using i by (auto simp: s)
next
  case (3 rt mx waitStartTime starving awoke iter old k)
  from 3(1) have i: "iter < active_spin" by (simp add: runtime_canSpin_def)
  show ?case using i by auto
next
  case (4 rt mx waitStartTime starving awoke iter old k new1 new2 new3 new s swapped
          queueLifo wst k1 sm mx2 starving1 k2 old1)
  from 4(13) have nz: "sema mx \<noteq> 0" and sm: "sm = sema mx - 1"
    by (auto simp: runtime_Semacquire_def split: if_splits)
  from nz have "unat (sema mx) \<noteq> 0" by (simp add: unat_eq_zero)
  with nz have "unat sm < unat (sema mx)" by (simp add: sm unat_minus_one)
  then show ?case by (simp add: 4(14))
next
  case (5 rt mx waitStartTime starving awoke iter old k new1 new2 new3 new s swapped)
  from 5(7,8) have "state mx \<noteq> old" and "s = state mx"
    by (auto simp: CompareAndSwapInt32_def split: if_splits)
  then show ?case by simp
qed

definition lockSlow :: "runtime \<Rightarrow> Mutex \<Rightarrow> (Mutex \<times> event list) res" where
  "lockSlow rt mx = lockSlow_loop rt mx 0 False False 0 (state mx) 0"

definition Mutex_Lock :: "runtime \<Rightarrow> Mutex \<Rightarrow> (Mutex \<times> event list) res" where
  "Mutex_Lock rt mx =
     (case CompareAndSwapInt32 (state mx) 0 mutexLocked of
        (s, swapped) \<Rightarrow>
          if swapped then Ret (mx\<lparr>state := s\<rparr>, [AtomicCAS State True])
          else prepend [AtomicCAS State False] (lockSlow rt mx))"


section \<open>RWMutex\<close>

record RWMutex =
  w :: Mutex
  writerSem :: "32 word"
  readerSem :: "32 word"
  readerCount :: "32 word"
  readerWait :: "32 word"

definition rwmutexMaxReaders :: "32 word" where
  "rwmutexMaxReaders = push_bit 30 1"

definition RWMutex_RLock :: "RWMutex \<Rightarrow> (RWMutex \<times> event list) res" where
  "RWMutex_RLock rw =
     (let c = readerCount rw + 1;
          rw1 = rw\<lparr>readerCount := c\<rparr>
      in if c <s 0
         then (case runtime_Semacquire (readerSem rw1) of
                 None \<Rightarrow> Block
               | Some s \<Rightarrow>
                   Ret (rw1\<lparr>readerSem := s\<rparr>,
                        [AtomicAdd ReaderCount 1, Semacquire ReaderSem False 0]))
         else Ret (rw1, [AtomicAdd ReaderCount 1]))"

definition rUnlockSlow :: "RWMutex \<Rightarrow> 32 word \<Rightarrow> (RWMutex \<times> event list) res" where
  "rUnlockSlow rw r =
     (if r + 1 = 0 \<or> r + 1 = - rwmutexMaxReaders
      then Fatal ''sync: RUnlock of unlocked RWMutex''
      else
        (let rw1 = rw\<lparr>readerWait := readerWait rw - 1\<rparr> in
         if readerWait rw1 = 0
         then Ret (rw1\<lparr>writerSem := runtime_Semrelease (writerSem rw1)\<rparr>,
                   [AtomicAdd ReaderWait (- 1), Semrelease WriterSem False 1])
         else Ret (rw1, [AtomicAdd ReaderWait (- 1)])))"

definition RWMutex_RUnlock :: "RWMutex \<Rightarrow> (RWMutex \<times> event list) res" where
  "RWMutex_RUnlock rw =
     (let r = readerCount rw - 1;
          rw1 = rw\<lparr>readerCount := r\<rparr>
      in if r <s 0
         then prepend [AtomicAdd ReaderCount (- 1)] (rUnlockSlow rw1 r)
         else Ret (rw1, [AtomicAdd ReaderCount (- 1)]))"

definition RWMutex_Lock :: "runtime \<Rightarrow> RWMutex \<Rightarrow> (RWMutex \<times> event list) res" where
  "RWMutex_Lock rt rw =
     (case Mutex_Lock rt (w rw) of
        Fatal msg \<Rightarrow> Fatal msg
      | Block \<Rightarrow> Block
      | Ret (mx, tw) \<Rightarrow>
          (let rw1 = rw\<lparr>w := mx, readerCount := readerCount rw - rwmutexMaxReaders\<rparr>;
               r = readerCount rw1 + rwmutexMaxReaders;
               t1 = map (relocate In_w) tw @ [AtomicAdd ReaderCount (- sint rwmutexMaxReaders)]
           in if r \<noteq> 0
              then
                (let rw2 = rw1\<lparr>readerWait := readerWait rw1 + r\<rparr>;
                     t2 = t1 @ [AtomicAdd ReaderWait (sint r)]
                 in if readerWait rw2 \<noteq> 0
                    then (case runtime_Semacquire (writerSem rw2) of
                            None \<Rightarrow> Block
                          | Some s \<Rightarrow>
                              Ret (rw2\<lparr>writerSem := s\<rparr>,
                                   t2 @ [Semacquire WriterSem False 0]))
                    else Ret (rw2, t2))
              else Ret (rw1, t1)))"

definition RWMutex_TryLock :: "RWMutex \<Rightarrow> ((bool \<times> RWMutex) \<times> event list) res" where
  "RWMutex_TryLock rw =
     (case Mutex_TryLock (w rw) of
        (locked, mx, tw) \<Rightarrow>
          if \<not> locked then Ret ((False, rw\<lparr>w := mx\<rparr>), map (relocate In_w) tw)
          else
            (let rw1 = rw\<lparr>w := mx\<rparr> in
             case CompareAndSwapInt32 (readerCount rw1) 0 (- rwmutexMaxReaders) of
               (c, swapped) \<Rightarrow>
                 if \<not> swapped
                 then
                   (case Mutex_Unlock (w rw1) of
                      Fatal msg \<Rightarrow> Fatal msg
                    | Block \<Rightarrow> Block
                    | Ret (mx2, tu) \<Rightarrow>
                        Ret ((False, rw1\<lparr>w := mx2\<rparr>),
                             map (relocate In_w) tw @ [AtomicCAS ReaderCount False]
                             @ map (relocate In_w) tu))
                 else
                   Ret ((True, rw1\<lparr>readerCount := c\<rparr>),
                        map (relocate In_w) tw @ [AtomicCAS ReaderCount True])))"

text \<open>The loop of \<^verbatim>\<open>RWMutex.Unlock\<close> that releases the blocked readers.\<close>

function release_readers :: "int \<Rightarrow> int \<Rightarrow> 32 word \<Rightarrow> 32 word \<times> event list" where
  "release_readers i n s =
     (if i < n
      then (case release_readers (i + 1) n (runtime_Semrelease s) of
              (s', t) \<Rightarrow> (s', Semrelease ReaderSem False 0 # t))
      else (s, []))"
  by pat_completeness auto
termination
  by (relation "measure (\<lambda>(i, n, s). nat (n - i))") auto

definition RWMutex_Unlock :: "RWMutex \<Rightarrow> (RWMutex \<times> event list) res" where
  "RWMutex_Unlock rw =
     (let r = readerCount rw + rwmutexMaxReaders;
          rw1 = rw\<lparr>readerCount := r\<rparr>
      in if rwmutexMaxReaders \<le>s r
         then Fatal ''sync: Unlock of unlocked RWMutex''
         else
           (case release_readers 0 (sint r) (readerSem rw1) of
              (s, t) \<Rightarrow>
                (case Mutex_Unlock (w rw1) of
                   Fatal msg \<Rightarrow> Fatal msg
                 | Block \<Rightarrow> Block
                 | Ret (mx, tw) \<Rightarrow>
                     Ret (rw1\<lparr>readerSem := s, w := mx\<rparr>,
                          AtomicAdd ReaderCount (sint rwmutexMaxReaders) # t
                          @ map (relocate In_w) tw))))"

section \<open>WaitGroup\<close>

text \<open>
  The state is the packed 64-bit word of the source.  The argument of \<^verbatim>\<open>Add\<close> is a
  Go \<^verbatim>\<open>int\<close>, 64 bits wide on the platforms the package packs the state for.
\<close>

record WaitGroup =
  wg_state :: "64 word"
  wg_sema :: "32 word"

text \<open>The loop of \<^verbatim>\<open>WaitGroup.Add\<close> that releases the waiters.\<close>

function release_waiters :: "32 word \<Rightarrow> 32 word \<Rightarrow> 32 word \<times> event list" where
  "release_waiters n s =
     (if n \<noteq> 0
      then (case release_waiters (n - 1) (runtime_Semrelease s) of
              (s', t) \<Rightarrow> (s', Semrelease Sema False 0 # t))
      else (s, []))"
  by pat_completeness auto
termination
proof (relation "measure (\<lambda>(n, s). unat n)", goal_cases)
  case 1
  show ?case by simp
next
  case (2 n s)
  then have "0 < unat n" by (simp add: unat_gt_0)
  with 2 show ?case by (simp add: unat_minus_one)
qed

text \<open>
  \<^verbatim>\<open>WaitGroup.Add\<close>: the panic it raised, if any, the wait group and the calls made.
\<close>

definition WaitGroup_Add :: "WaitGroup \<Rightarrow> 64 word \<Rightarrow> string option \<times> WaitGroup \<times> event list" where
  "WaitGroup_Add wg delta =
     (let st = wg_state wg + push_bit 32 delta;
          wg1 = wg\<lparr>wg_state := st\<rparr>;
          v = (ucast (drop_bit 32 st) :: 32 word);
          n = (ucast st :: 32 word);
          t1 = [AtomicAdd State (uint (push_bit 32 delta))]
      in if v <s 0
         then (Some ''sync: negative WaitGroup counter'', wg1, t1)
         else if n \<noteq> 0 \<and> 0 <s delta \<and> v = ucast delta
         then (Some ''sync: WaitGroup misuse: Add called concurrently with Wait'', wg1, t1)
         else if 0 <s v \<or> n = 0
         then (None, wg1, t1)
         else if wg_state wg1 \<noteq> st
         then (Some ''sync: WaitGroup misuse: Add called concurrently with Wait'', wg1,
               t1 @ [AtomicLoad State])
         else
           (case release_waiters n (wg_sema wg1) of
              (s, t) \<Rightarrow>
                (None, wg1\<lparr>wg_state := 0, wg_sema := s\<rparr>,
                 t1 @ [AtomicLoad State, AtomicStore State 0] @ t)))"

definition WaitGroup_Done :: "WaitGroup \<Rightarrow> string option \<times> WaitGroup \<times> event list" where
  "WaitGroup_Done wg = WaitGroup_Add wg (- 1)"

section \<open>Map\<close>

text \<open>
  An \<^verbatim>\<open>entry\<close> is shared between the read-only map and the dirty map through its
  address, so the entries live in a store.  The pointer \<^verbatim>\<open>p\<close> of an entry is nil,
  the marker \<^verbatim>\<open>expunged\<close>, or points to a value.
\<close>

datatype 'v pointer = Nil | Expunged | Ptr 'v

type_synonym entry_ref = nat

text \<open>
  A Go map from keys to entries: an association list, or nil.  Reading a nil map finds
  nothing and its length is zero.
\<close>

type_synonym 'k go_map = "('k \<times> entry_ref) list option"

definition lookup :: "'k go_map \<Rightarrow> 'k \<Rightarrow> entry_ref option" where
  "lookup mp key = (case mp of None \<Rightarrow> None | Some xs \<Rightarrow> map_of xs key)"

definition len :: "'k go_map \<Rightarrow> int" where
  "len mp = (case mp of None \<Rightarrow> 0 | Some xs \<Rightarrow> int (length (remdups (map fst xs))))"

record 'k readOnly =
  m :: "'k go_map"
  amended :: bool

record ('k, 'v) Map =
  mu :: Mutex
  read :: "'k readOnly option"
  dirty :: "'k go_map"
  misses :: "64 word"
  entries :: "entry_ref \<Rightarrow> 'v pointer"

definition loadReadOnly :: "('k, 'v) Map \<Rightarrow> 'k readOnly" where
  "loadReadOnly mp =
     (case read mp of Some p \<Rightarrow> p | None \<Rightarrow> \<lparr>readOnly.m = None, amended = False\<rparr>)"

text \<open>\<^verbatim>\<open>entry.load\<close>: the value and \<^verbatim>\<open>ok\<close>, as an option.\<close>

definition entry_load :: "'v pointer \<Rightarrow> 'v option" where
  "entry_load p = (case p of Nil \<Rightarrow> None | Expunged \<Rightarrow> None | Ptr v \<Rightarrow> Some v)"

definition missLocked :: "('k, 'v) Map \<Rightarrow> ('k, 'v) Map" where
  "missLocked mp =
     (let mp1 = mp\<lparr>misses := misses mp + 1\<rparr> in
      if sint (misses mp1) < len (dirty mp1) then mp1
      else mp1\<lparr>read := Some \<lparr>readOnly.m = dirty mp1, amended = False\<rparr>,
               dirty := None, misses := 0\<rparr>)"

text \<open>
  \<^verbatim>\<open>Map.Load\<close>.  The result is the value found, if any (the source's pair of a value
  and \<^verbatim>\<open>ok\<close>), and the map.
\<close>

definition Map_Load ::
  "runtime \<Rightarrow> ('k, 'v) Map \<Rightarrow> 'k \<Rightarrow> (('v option \<times> ('k, 'v) Map) \<times> event list) res" where
  "Map_Load rt mp key =
     (let rd = loadReadOnly mp;
          e = lookup (readOnly.m rd) key
      in if e = None \<and> amended rd
         then
           (case Mutex_Lock rt (mu mp) of
              Fatal msg \<Rightarrow> Fatal msg
            | Block \<Rightarrow> Block
            | Ret (mx, ta) \<Rightarrow>
                (let mp1 = mp\<lparr>mu := mx\<rparr>;
                     rd1 = loadReadOnly mp1;
                     e1 = lookup (readOnly.m rd1) key;
                     missed = (e1 = None \<and> amended rd1);
                     e2 = (if missed then lookup (dirty mp1) key else e1);
                     mp2 = (if missed then missLocked mp1 else mp1)
                 in case Mutex_Unlock (mu mp2) of
                      Fatal msg \<Rightarrow> Fatal msg
                    | Block \<Rightarrow> Block
                    | Ret (mx', tu) \<Rightarrow>
                        (case e2 of
                           None \<Rightarrow>
                             Ret ((None, mp2\<lparr>mu := mx'\<rparr>),
                                  AtomicLoad Read # map (relocate In_mu) ta @ [AtomicLoad Read]
                                  @ map (relocate In_mu) tu)
                         | Some r \<Rightarrow>
                             Ret ((entry_load (entries mp2 r), mp2\<lparr>mu := mx'\<rparr>),
                                  AtomicLoad Read # map (relocate In_mu) ta @ [AtomicLoad Read]
                                  @ map (relocate In_mu) tu @ [AtomicLoad (EntryP r)]))))
         else
           (case e of
              None \<Rightarrow> Ret ((None, mp), [AtomicLoad Read])
            | Some r \<Rightarrow>
                Ret ((entry_load (entries mp r), mp), [AtomicLoad Read, AtomicLoad (EntryP r)])))"

text \<open>Successive calls of \<^verbatim>\<open>Load\<close>, the results dropped.\<close>

fun Load_calls ::
  "runtime \<Rightarrow> ('k, 'v) Map \<Rightarrow> 'k list \<Rightarrow> ('k, 'v) Map res" where
  "Load_calls rt mp [] = Ret mp"
| "Load_calls rt mp (key # keys) =
     (case Map_Load rt mp key of
        Fatal msg \<Rightarrow> Fatal msg
      | Block \<Rightarrow> Block
      | Ret ((v, mp'), t) \<Rightarrow> Load_calls rt mp' keys)"

section \<open>Once\<close>

record Once =
  done_flag :: "32 word"
  m :: Mutex

text \<open>
  The action handed to \<^verbatim>\<open>Do\<close> works on the caller's own data \<open>'u\<close>; it returns the
  value of the panic it raised, if any.  An action that calls \<^verbatim>\<open>Do\<close> on the same
  \<^verbatim>\<open>Once\<close> is outside the model.
\<close>

type_synonym 'u action = "'u \<Rightarrow> string option \<times> 'u"




subsection \<open>Interleaved calls\<close>

text \<open>
  Several goroutines inside \<^verbatim>\<open>Do\<close> at once, all with the action \<open>f\<close>.  A goroutine
  is at one of the statements of \<^verbatim>\<open>Do\<close> and \<^verbatim>\<open>doSlow\<close>: before the load of
  \<^verbatim>\<open>done\<close>, before \<^verbatim>\<open>m.Lock()\<close>, before the second look at \<^verbatim>\<open>done\<close>, before
  the deferred store (the action has run), before the deferred \<^verbatim>\<open>m.Unlock()\<close>, or it
  has returned.  A step is one such statement of one goroutine; the action runs in one
  step, the calls of the mutex are steps of their own, and a \<^verbatim>\<open>Lock\<close> that would
  park the goroutine is a step it cannot take yet.  The number of times the action has
  run is counted in \<open>calls\<close>.
\<close>

datatype pc = Entry | Slow | Locked | Ran | Unlocking | Returned

record 'u config =
  once :: Once
  user :: 'u
  threads :: "pc multiset"
  calls :: nat

definition move :: "pc \<Rightarrow> pc \<Rightarrow> 'u config \<Rightarrow> 'u config" where
  "move p q c = c\<lparr>threads := add_mset q (threads c - {#p#})\<rparr>"

inductive step :: "runtime \<Rightarrow> 'u action \<Rightarrow> 'u config \<Rightarrow> 'u config \<Rightarrow> bool"
  for rt :: runtime and f :: "'u action" where
  fast_done:
    "Entry \<in># threads c \<Longrightarrow> done_flag (once c) \<noteq> 0 \<Longrightarrow> step rt f c (move Entry Returned c)"
| fast_miss:
    "Entry \<in># threads c \<Longrightarrow> done_flag (once c) = 0 \<Longrightarrow> step rt f c (move Entry Slow c)"
| lock:
    "Slow \<in># threads c \<Longrightarrow> Mutex_Lock rt (m (once c)) = Ret (mx, t) \<Longrightarrow>
     step rt f c (move Slow Locked (c\<lparr>once := (once c)\<lparr>m := mx\<rparr>\<rparr>))"
| check_run:
    "Locked \<in># threads c \<Longrightarrow> done_flag (once c) = 0 \<Longrightarrow>
     step rt f c (move Locked Ran (c\<lparr>user := snd (f (user c)), calls := Suc (calls c)\<rparr>))"
| check_skip:
    "Locked \<in># threads c \<Longrightarrow> done_flag (once c) \<noteq> 0 \<Longrightarrow>
     step rt f c (move Locked Unlocking c)"
| store:
    "Ran \<in># threads c \<Longrightarrow>
     step rt f c (move Ran Unlocking (c\<lparr>once := (once c)\<lparr>done_flag := 1\<rparr>\<rparr>))"
| unlock:
    "Unlocking \<in># threads c \<Longrightarrow> Mutex_Unlock (m (once c)) = Ret (mx, t) \<Longrightarrow>
     step rt f c (move Unlocking Returned (c\<lparr>once := (once c)\<lparr>m := mx\<rparr>\<rparr>))"

definition start :: "nat \<Rightarrow> 'u \<Rightarrow> 'u config" where
  "start n u =
     \<lparr>once = \<lparr>done_flag = 0, m = \<lparr>state = 0, sema = 0\<rparr>\<rparr>, user = u,
      threads = replicate_mset n Entry, calls = 0\<rparr>"

inductive reachable :: "runtime \<Rightarrow> 'u action \<Rightarrow> nat \<Rightarrow> 'u \<Rightarrow> 'u config \<Rightarrow> bool"
  for rt :: runtime and f :: "'u action" and n :: nat and u :: 'u where
  init: "reachable rt f n u (start n u)"
| further: "reachable rt f n u c \<Longrightarrow> step rt f c c' \<Longrightarrow> reachable rt f n u c'"

definition in_crit :: "pc \<Rightarrow> bool" where
  "in_crit p = (p = Locked \<or> p = Ran \<or> p = Unlocking)"

definition crit :: "'u config \<Rightarrow> nat" where
  "crit c = size (filter_mset in_crit (threads c))"

text \<open>
  What holds of every configuration the goroutines can reach: the mutex is locked exactly
  while one goroutine is between \<^verbatim>\<open>Lock\<close> and \<^verbatim>\<open>Unlock\<close> and nobody waits on its
  semaphore; once the flag is set the action has run once and is not running; before that
  nobody has returned and the action has run at most once, namely when a goroutine stands
  before the deferred store.
\<close>

definition once_inv :: "'u config \<Rightarrow> bool" where
  "once_inv c =
     (sema (m (once c)) = 0
      \<and> ((state (m (once c)) = 0 \<and> crit c = 0) \<or> (state (m (once c)) = mutexLocked \<and> crit c = 1))
      \<and> (done_flag (once c) = 0 \<or> done_flag (once c) = 1)
      \<and> (if done_flag (once c) = 0
         then Returned \<notin># threads c \<and> Unlocking \<notin># threads c
              \<and> calls c = (if Ran \<in># threads c then 1 else 0)
         else calls c = 1 \<and> Ran \<notin># threads c))"

section \<open>Pool\<close>

text \<open>
  Modelled from the spec: the type \<^verbatim>\<open>poolChain\<close> of the shared part of a shard is not
  among the sources (section 3: a double-ended chain, pushed and popped at the head by the
  owner, popped at the tail by thieves).  It is a list with the head first; popping an
  empty chain gives nil.
\<close>

type_synonym 'a poolChain = "'a list"

definition pushHead :: "'a poolChain \<Rightarrow> 'a \<Rightarrow> 'a poolChain" where
  "pushHead c x = x # c"

definition popHead :: "'a poolChain \<Rightarrow> 'a option \<times> 'a poolChain" where
  "popHead c = (case c of [] \<Rightarrow> (None, []) | x # xs \<Rightarrow> (Some x, xs))"

definition popTail :: "'a poolChain \<Rightarrow> 'a option \<times> 'a poolChain" where
  "popTail c = (if c = [] then (None, []) else (Some (last c), butlast c))"

text \<open>
  An item is a Go \<^verbatim>\<open>any\<close>: nil is \<open>None\<close>.  The field \<^verbatim>\<open>private\<close> of a shard is
  \<open>private_slot\<close> here.
\<close>

record 'a poolLocal =
  private_slot :: "'a option"
  shared :: "'a poolChain"

text \<open>
  The arrays \<^verbatim>\<open>local\<close> and \<^verbatim>\<open>victim\<close> are lists of shards, the nil pointer being
  the empty list; their sizes are kept beside them as in the source.
\<close>

record 'a Pool =
  local :: "'a poolLocal list"
  localSize :: nat
  victim :: "'a poolLocal list"
  victimSize :: nat
  New :: "(unit \<Rightarrow> 'a option) option"

text \<open>
  The pools are reached through pointers, which the registries \<^verbatim>\<open>allPools\<close> and
  \<^verbatim>\<open>oldPools\<close> hold: the package's globals and the pools make up the state.
\<close>

type_synonym pool_ref = nat

record 'a globals =
  pools :: "pool_ref \<Rightarrow> 'a Pool"
  allPoolsMu :: Mutex
  allPools :: "pool_ref list"
  oldPools :: "pool_ref list"

text \<open>
  What the pool asks of the scheduler and of the build: the processor the goroutine is
  pinned to, \<^verbatim>\<open>GOMAXPROCS\<close>, whether the race detector is compiled in, and the random
  numbers of \<^verbatim>\<open>fastrandn\<close>.
\<close>

record sched =
  procPin :: nat
  GOMAXPROCS :: nat
  race_Enabled :: bool
  fastrandn :: "nat \<Rightarrow> nat"

text \<open>
  \<^verbatim>\<open>indexLocal\<close> is pointer arithmetic; an index outside the array is a memory fault.
\<close>

definition indexLocal :: "'a poolLocal list \<Rightarrow> nat \<Rightarrow> 'a poolLocal option" where
  "indexLocal l i = (if i < length l then Some (l ! i) else None)"

definition set_pool :: "'a globals \<Rightarrow> pool_ref \<Rightarrow> 'a Pool \<Rightarrow> 'a globals" where
  "set_pool g pr p = g\<lparr>pools := (pools g)(pr := p)\<rparr>"

text \<open>\<^verbatim>\<open>make([]poolLocal, size)\<close>: an array of zero shards.\<close>

definition make_locals :: "nat \<Rightarrow> 'a poolLocal list" where
  "make_locals n = replicate n \<lparr>private_slot = None, shared = []\<rparr>"

text \<open>
  \<^verbatim>\<open>Pool.pinSlow\<close>, with its deferred unlock of \<^verbatim>\<open>allPoolsMu\<close>.  The shard it returns
  is given by its index in the array \<^verbatim>\<open>local\<close> of the pool.  The runtime keeps the
  processor number below \<^verbatim>\<open>GOMAXPROCS\<close>; otherwise taking the address of the shard
  is an index out of range.
\<close>

definition pinSlow :: "runtime \<Rightarrow> sched \<Rightarrow> 'a globals \<Rightarrow> pool_ref \<Rightarrow> ('a globals \<times> nat) res" where
  "pinSlow rt sc g pr =
     (case Mutex_Lock rt (allPoolsMu g) of
        Fatal msg \<Rightarrow> Fatal msg
      | Block \<Rightarrow> Block
      | Ret (mx, ta) \<Rightarrow>
          (let g1 = g\<lparr>allPoolsMu := mx\<rparr>;
               pid = procPin sc;
               p = pools g1 pr
           in if pid < localSize p
              then
                (case indexLocal (local p) pid of
                   None \<Rightarrow> Fatal ''invalid memory address''
                 | Some l \<Rightarrow>
                     (case Mutex_Unlock (allPoolsMu g1) of
                        Fatal msg \<Rightarrow> Fatal msg
                      | Block \<Rightarrow> Block
                      | Ret (mx', tu) \<Rightarrow> Ret (g1\<lparr>allPoolsMu := mx'\<rparr>, pid)))
              else
                (let g2 = (if local p = [] then g1\<lparr>allPools := allPools g1 @ [pr]\<rparr> else g1);
                     size = GOMAXPROCS sc;
                     fresh = make_locals size;
                     g3 = set_pool g2 pr (p\<lparr>local := fresh, localSize := size\<rparr>)
                 in if size \<le> pid then Fatal ''index out of range''
                    else
                      (case Mutex_Unlock (allPoolsMu g3) of
                         Fatal msg \<Rightarrow> Fatal msg
                       | Block \<Rightarrow> Block
                       | Ret (mx', tu) \<Rightarrow> Ret (g3\<lparr>allPoolsMu := mx'\<rparr>, pid)))))"

definition pin :: "runtime \<Rightarrow> sched \<Rightarrow> 'a globals \<Rightarrow> pool_ref \<Rightarrow> ('a globals \<times> nat) res" where
  "pin rt sc g pr =
     (let pid = procPin sc;
          s = localSize (pools g pr);
          l = local (pools g pr)
      in if pid < s
         then (case indexLocal l pid of
                 None \<Rightarrow> Fatal ''invalid memory address''
               | Some sh \<Rightarrow> Ret (g, pid))
         else pinSlow rt sc g pr)"

text \<open>
  \<^verbatim>\<open>Pool.Put\<close>.  With the race detector compiled in, one call in four drops the item.
\<close>

definition Pool_Put :: "runtime \<Rightarrow> sched \<Rightarrow> 'a globals \<Rightarrow> pool_ref \<Rightarrow> 'a option \<Rightarrow> 'a globals res" where
  "Pool_Put rt sc g pr x =
     (case x of
        None \<Rightarrow> Ret g
      | Some v \<Rightarrow>
          if race_Enabled sc \<and> fastrandn sc 4 = 0 then Ret g
          else
            (case pin rt sc g pr of
               Fatal msg \<Rightarrow> Fatal msg
             | Block \<Rightarrow> Block
             | Ret (g1, i) \<Rightarrow>
                 (let p = pools g1 pr;
                      l = local p ! i
                  in if private_slot l = None
                     then Ret (set_pool g1 pr (p\<lparr>local := (local p)[i := l\<lparr>private_slot := x\<rparr>]\<rparr>))
                     else Ret (set_pool g1 pr
                            (p\<lparr>local := (local p)[i := l\<lparr>shared := pushHead (shared l) v\<rparr>]\<rparr>)))))"

text \<open>
  The loops of \<^verbatim>\<open>Pool.getSlow\<close>: the shards at the given indices are tried in turn
  and the first item found at the tail of a chain is taken.  \<^verbatim>\<open>getSlow\<close> reaches
  the shards by pointer arithmetic up to the recorded size; a size beyond the array is a
  memory fault.
\<close>

fun steal :: "nat list \<Rightarrow> 'a poolLocal list \<Rightarrow> 'a option \<times> 'a poolLocal list" where
  "steal [] ls = (None, ls)"
| "steal (j # js) ls =
     (case popTail (shared (ls ! j)) of
        (None, c) \<Rightarrow> steal js ls
      | (Some x, c) \<Rightarrow> (Some x, ls[j := (ls ! j)\<lparr>shared := c\<rparr>]))"

definition getSlow :: "'a globals \<Rightarrow> pool_ref \<Rightarrow> nat \<Rightarrow> ('a option \<times> 'a globals) res" where
  "getSlow g pr pid =
     (let p = pools g pr;
          size = localSize p
      in if length (local p) < size then Fatal ''invalid memory address''
         else
           (case steal (map (\<lambda>i. (pid + i + 1) mod size) [0..<size]) (local p) of
              (Some x, ls) \<Rightarrow> Ret (Some x, set_pool g pr (p\<lparr>local := ls\<rparr>))
            | (None, ls) \<Rightarrow>
                (let vsize = victimSize p in
                 if vsize \<le> pid then Ret (None, g)
                 else if length (victim p) < vsize then Fatal ''invalid memory address''
                 else
                   (let l = victim p ! pid in
                    case private_slot l of
                      Some x \<Rightarrow>
                        Ret (Some x,
                             set_pool g pr
                               (p\<lparr>victim := (victim p)[pid := l\<lparr>private_slot := None\<rparr>]\<rparr>))
                    | None \<Rightarrow>
                        (case steal (map (\<lambda>i. (pid + i) mod vsize) [0..<vsize]) (victim p) of
                           (Some x, vs) \<Rightarrow> Ret (Some x, set_pool g pr (p\<lparr>victim := vs\<rparr>))
                         | (None, vs) \<Rightarrow> Ret (None, set_pool g pr (p\<lparr>victimSize := 0\<rparr>)))))))"

definition Pool_Get ::
  "runtime \<Rightarrow> sched \<Rightarrow> 'a globals \<Rightarrow> pool_ref \<Rightarrow> ('a option \<times> 'a globals) res" where
  "Pool_Get rt sc g pr =
     (case pin rt sc g pr of
        Fatal msg \<Rightarrow> Fatal msg
      | Block \<Rightarrow> Block
      | Ret (g1, pid) \<Rightarrow>
          (let p = pools g1 pr;
               l = local p ! pid;
               x = private_slot l;
               g2 = set_pool g1 pr (p\<lparr>local := (local p)[pid := l\<lparr>private_slot := None\<rparr>]\<rparr>)
           in case (if x = None
                    then
                      (case popHead (shared l) of
                         (Some y, c) \<Rightarrow>
                           Ret (Some y,
                                set_pool g2 pr
                                  (p\<lparr>local :=
                                       (local p)[pid := l\<lparr>private_slot := None, shared := c\<rparr>]\<rparr>))
                       | (None, c) \<Rightarrow> getSlow g2 pr pid)
                    else Ret (x, g2)) of
                Fatal msg \<Rightarrow> Fatal msg
              | Block \<Rightarrow> Block
              | Ret (x1, g3) \<Rightarrow>
                  (case New (pools g3 pr) of
                     None \<Rightarrow> Ret (x1, g3)
                   | Some new \<Rightarrow> if x1 = None then Ret (new (), g3) else Ret (x1, g3))))"

text \<open>\<^verbatim>\<open>poolCleanup\<close>, the sweep the garbage collector runs with the world stopped.\<close>

definition poolCleanup :: "'a globals \<Rightarrow> 'a globals" where
  "poolCleanup g =
     (let g1 = fold (\<lambda>pr h. set_pool h pr ((pools h pr)\<lparr>victim := [], victimSize := 0\<rparr>))
                 (oldPools g) g;
          g2 = fold (\<lambda>pr h. set_pool h pr
                  ((pools h pr)\<lparr>victim := local (pools h pr), victimSize := localSize (pools h pr),
                                local := [], localSize := 0\<rparr>))
                 (allPools g1) g1
      in g2\<lparr>oldPools := allPools g2, allPools := []\<rparr>)"

section \<open>Example states\<close>

text \<open>
  A runtime that never lets a goroutine spin, a single processor with the race detector
  left out, and pools of numbers: a pool never used, a pool whose shard is empty and a
  pool whose shard already holds the item 1 in its private slot.
\<close>

definition rt0 :: runtime where
  "rt0 = \<lparr>canSpin_sched = (\<lambda>i. False), nanotime = (\<lambda>k. 0)\<rparr>"

definition sc0 :: sched where
  "sc0 = \<lparr>procPin = 0, GOMAXPROCS = 1, race_Enabled = False, fastrandn = (\<lambda>n. 0)\<rparr>"

definition pool_zero :: "nat Pool" where
  "pool_zero = \<lparr>local = [], localSize = 0, victim = [], victimSize = 0, New = None\<rparr>"

definition pool_empty :: "nat Pool" where
  "pool_empty =
     \<lparr>local = [\<lparr>private_slot = None, shared = []\<rparr>], localSize = 1, victim = [],
      victimSize = 0, New = None\<rparr>"

definition pool_held :: "nat Pool" where
  "pool_held =
     \<lparr>local = [\<lparr>private_slot = Some 1, shared = []\<rparr>], localSize = 1, victim = [],
      victimSize = 0, New = None\<rparr>"

definition globals_of :: "nat Pool \<Rightarrow> nat globals" where
  "globals_of p =
     \<lparr>pools = (\<lambda>r. p), allPoolsMu = \<lparr>state = 0, sema = 0\<rparr>, allPools = [], oldPools = []\<rparr>"

text \<open>
  A map whose read-only part holds the key 1 and whose dirty part holds the keys 1 and 2,
  with no miss counted yet.
\<close>

definition map_two :: "(nat, string) Map" where
  "map_two =
     \<lparr>mu = \<lparr>state = 0, sema = 0\<rparr>,
      read = Some \<lparr>readOnly.m = Some [(1, 0)], amended = True\<rparr>,
      dirty = Some [(1, 0), (2, 1)],
      misses = 0,
      entries = (\<lambda>r. if r = 0 then Ptr ''a'' else if r = 1 then Ptr ''b'' else Nil)\<rparr>"

section \<open>Properties\<close>

text \<open>
  The loops are unfolded by hand where a proof needs it.
\<close>

declare unlockSlow_loop.simps [simp del] lockSlow_loop.simps [simp del]
  release_readers.simps [simp del] release_waiters.simps [simp del]

subsection \<open>Mutex\<close>

lemma unlocked_minus_one:
  fixes s :: "32 word"
  assumes "s AND 1 = 0"
  shows "s - 1 \<noteq> 0" and "(s - 1 + 1) AND 1 = 0"
proof -
  show "s - 1 \<noteq> 0"
  proof
    assume "s - 1 = 0"
    then have "s = 1" by simp
    with assms show False by simp
  qed
  show "(s - 1 + 1) AND 1 = 0" using assms by simp
qed

lemma or_one_minus_one:
  fixes s :: "32 word"
  assumes "s AND 1 = 0"
  shows "(s OR 1) - 1 = s"
proof -
  have "s + 1 = s OR 1" using assms by (rule disjunctive_add_eq_or)
  then have "s OR 1 = s + 1" by simp
  then show ?thesis by simp
qed

lemma flags_clear:
  fixes s :: "32 word"
  assumes "s AND (mutexLocked OR mutexStarving) = 0"
  shows "s AND mutexLocked = 0" and "s AND mutexStarving = 0"
  using assms by (metis bit.conj_disj_distrib or_eq_0_iff)+

lemma or_one_and_one:
  fixes s :: "32 word"
  shows "(s OR 1) AND 1 = 1"
  by (simp add: bit.conj_disj_distrib2)

text \<open>
  C2: \<^verbatim>\<open>Mutex.Unlock\<close> on a mutex whose locked bit is clear does not return: it ends
  in \<^verbatim>\<open>fatal("sync: unlock of unlocked mutex")\<close>, whatever the waiter count and the
  other flags are.
\<close>

theorem Unlock_unlocked_fatal:
  assumes "state mx AND mutexLocked = 0"
  shows "Mutex_Unlock mx = Fatal ''sync: unlock of unlocked mutex''"
proof -
  have s: "state mx AND 1 = 0" using assms by (simp add: mutexLocked_def)
  have n: "state mx - 1 \<noteq> 0" by (rule unlocked_minus_one(1) [OF s])
  show ?thesis
    using n s by (simp add: Mutex_Unlock_def unlockSlow_def mutexLocked_def Let_def)
qed

theorem Unlock_unlocked_fatal_witness:
  "state \<lparr>state = 8, sema = 0\<rparr> AND mutexLocked = 0
   \<and> Mutex_Unlock \<lparr>state = 8, sema = 0\<rparr> = Fatal ''sync: unlock of unlocked mutex''"
proof -
  have h: "state \<lparr>state = 8, sema = 0\<rparr> AND mutexLocked = 0"
    by (simp add: mutexLocked_def)
  show ?thesis using h Unlock_unlocked_fatal [OF h] by simp
qed

text \<open>
  C3: when the state \<^verbatim>\<open>Mutex.TryLock\<close> reads has the locked bit or the starving bit
  set, it returns false, leaves the mutex as it was and calls nothing; and no call of
  \<^verbatim>\<open>TryLock\<close>, whatever the state, acquires a semaphore, the only way this package
  suspends a goroutine.
\<close>

theorem TryLock_busy_false:
  "(state mx AND (mutexLocked OR mutexStarving) \<noteq> 0 \<longrightarrow> Mutex_TryLock mx = (False, mx, []))
   \<and> (\<forall>e \<in> set (snd (snd (Mutex_TryLock mx))). \<not> is_Semacquire e)"
  by (simp add: Mutex_TryLock_def Let_def CompareAndSwapInt32_def)

theorem TryLock_busy_false_witness:
  "state \<lparr>state = 9, sema = 0\<rparr> AND (mutexLocked OR mutexStarving) \<noteq> 0
   \<and> Mutex_TryLock \<lparr>state = 9, sema = 0\<rparr> = (False, \<lparr>state = 9, sema = 0\<rparr>, [])
   \<and> state \<lparr>state = 12, sema = 0\<rparr> AND (mutexLocked OR mutexStarving) \<noteq> 0
   \<and> Mutex_TryLock \<lparr>state = 12, sema = 0\<rparr> = (False, \<lparr>state = 12, sema = 0\<rparr>, [])
   \<and> list_all (\<lambda>e. \<not> is_Semacquire e) (snd (snd (Mutex_TryLock \<lparr>state = 8, sema = 0\<rparr>)))"
proof -
  have h1: "state \<lparr>state = 9, sema = 0\<rparr> AND (mutexLocked OR mutexStarving) \<noteq> 0"
    and h2: "state \<lparr>state = 12, sema = 0\<rparr> AND (mutexLocked OR mutexStarving) \<noteq> 0"
    by (simp_all add: mutexLocked_def mutexStarving_def)
  show ?thesis
    using h1 h2 TryLock_busy_false [of "\<lparr>state = 9, sema = 0\<rparr>"]
      TryLock_busy_false [of "\<lparr>state = 12, sema = 0\<rparr>"]
      TryLock_busy_false [of "\<lparr>state = 8, sema = 0\<rparr>"]
    by (simp add: list_all_iff)
qed

lemma TryLock_free:
  assumes "state mx AND (mutexLocked OR mutexStarving) = 0"
  shows "Mutex_TryLock mx = (True, mx\<lparr>state := state mx OR mutexLocked\<rparr>, [AtomicCAS State True])"
  using assms by (simp add: Mutex_TryLock_def Let_def CompareAndSwapInt32_def)

lemma unlockSlow_loop_current:
  "unlockSlow_loop mx (state mx) =
     (if signed_drop_bit mutexWaiterShift (state mx) = 0
         \<or> state mx AND (mutexLocked OR mutexWoken OR mutexStarving) \<noteq> 0
      then (mx, [])
      else (mx\<lparr>state := (state mx - push_bit mutexWaiterShift 1) OR mutexWoken,
               sema := sema mx + 1\<rparr>,
            [AtomicCAS State True, Semrelease Sema False 1]))"
  by (subst unlockSlow_loop.simps)
     (simp add: CompareAndSwapInt32_def runtime_Semrelease_def Let_def)

lemma locked_iff_odd:
  fixes s :: "32 word"
  shows "(s AND mutexLocked = 0) = even s"
  by (simp add: mutexLocked_def and_one_eq even_iff_mod_2_eq_zero)

lemma Unlock_locked:
  assumes "state mx AND mutexLocked \<noteq> 0"
  shows "Mutex_Unlock mx =
     (let n = state mx - mutexLocked in
      if n = 0 then Ret (mx\<lparr>state := n\<rparr>, [AtomicAdd State (- 1)])
      else if n AND mutexStarving \<noteq> 0
      then Ret (mx\<lparr>state := n, sema := sema mx + 1\<rparr>,
                [AtomicAdd State (- 1), Semrelease Sema True 1])
      else if signed_drop_bit mutexWaiterShift n = 0
              \<or> n AND (mutexLocked OR mutexWoken OR mutexStarving) \<noteq> 0
      then Ret (mx\<lparr>state := n\<rparr>, [AtomicAdd State (- 1)])
      else Ret (mx\<lparr>state := (n - push_bit mutexWaiterShift 1) OR mutexWoken,
                   sema := sema mx + 1\<rparr>,
                [AtomicAdd State (- 1), AtomicCAS State True, Semrelease Sema False 1]))"
proof -
  define n where "n = state mx - mutexLocked"
  have nl: "(n + mutexLocked) AND mutexLocked \<noteq> 0" using assms by (simp add: n_def)
  have cur: "unlockSlow_loop (mx\<lparr>state := n\<rparr>) n =
     (if signed_drop_bit mutexWaiterShift n = 0
         \<or> n AND (mutexLocked OR mutexWoken OR mutexStarving) \<noteq> 0
      then (mx\<lparr>state := n\<rparr>, [])
      else (mx\<lparr>state := (n - push_bit mutexWaiterShift 1) OR mutexWoken,
               sema := sema mx + 1\<rparr>,
            [AtomicCAS State True, Semrelease Sema False 1]))"
    using unlockSlow_loop_current [of "mx\<lparr>state := n\<rparr>"] by simp
  show ?thesis
    unfolding Mutex_Unlock_def unlockSlow_def Let_def n_def [symmetric]
    using nl by (simp add: cur runtime_Semrelease_def)
qed

lemma Unlock_locked_released:
  assumes "state mx AND mutexLocked \<noteq> 0"
  shows "\<exists>mx' t. Mutex_Unlock mx = Ret (mx', AtomicAdd State (- 1) # t)
           \<and> state mx' AND mutexLocked = 0"
proof -
  have odd: "odd (state mx)" using assms by (simp add: locked_iff_odd)
  then have ev: "even (state mx - mutexLocked)" by (simp add: mutexLocked_def)
  have ev2: "even ((state mx - mutexLocked - push_bit mutexWaiterShift 1) OR mutexWoken)"
    using ev by (simp add: mutexWaiterShift_def mutexWoken_def even_or_iff)
  show ?thesis
    using ev ev2 by (simp add: Unlock_locked [OF assms] Let_def locked_iff_odd)
qed


lemma Lock_free:
  assumes "state mx = 0"
  shows "Mutex_Lock rt mx = Ret (mx\<lparr>state := mutexLocked\<rparr>, [AtomicCAS State True])"
  using assms by (simp add: Mutex_Lock_def CompareAndSwapInt32_def)

lemma Unlock_no_waiters:
  assumes "state mx = mutexLocked"
  shows "Mutex_Unlock mx = Ret (mx\<lparr>state := 0\<rparr>, [AtomicAdd State (- 1)])"
  using assms by (simp add: Mutex_Unlock_def Let_def)

text \<open>A free mutex is free again after \<^verbatim>\<open>Lock\<close> and \<^verbatim>\<open>Unlock\<close>.\<close>

lemma Lock_then_Unlock:
  assumes "state mx = 0"
  shows "\<exists>mx1 t1 t2. Mutex_Lock rt mx = Ret (mx1, t1) \<and> Mutex_Unlock mx1 = Ret (mx, t2)"
proof -
  have "(mx\<lparr>state := mutexLocked\<rparr>)\<lparr>state := 0\<rparr> = mx" using assms by simp
  then show ?thesis
    by (simp add: Lock_free [OF assms] Unlock_no_waiters)
qed

subsection \<open>RWMutex\<close>

lemma maxReaders_val: "rwmutexMaxReaders = 1073741824"
  by (simp add: rwmutexMaxReaders_def)

lemma sint_maxReaders: "sint rwmutexMaxReaders = 1073741824"
  by (simp add: maxReaders_val)

lemma sint_of_nat_small:
  assumes "n < 2 ^ 30"
  shows "sint (of_nat n :: 32 word) = int n"
proof -
  have "int n < 2 ^ 31" using assms by simp
  then have "signed_take_bit 31 (int n) = int n"
    by (intro signed_take_bit_int_eq_self) simp_all
  then show ?thesis by (simp add: signed_of_nat)
qed

lemma release_readers_closed:
  "i \<le> n \<Longrightarrow>
   release_readers i n s =
     (s + of_int (n - i), replicate (nat (n - i)) (Semrelease ReaderSem False 0))"
proof (induction i n s rule: release_readers.induct)
  case (1 i n s)
  show ?case
  proof (cases "i < n")
    case True
    then have "nat (n - i) = Suc (nat (n - (i + 1)))" by simp
    with True 1 show ?thesis
      by (subst release_readers.simps) (simp add: runtime_Semrelease_def)
  next
    case False
    with 1 show ?thesis by (subst release_readers.simps) simp
  qed
qed

text \<open>
  C6: on a write-held lock (the internal mutex locked, the reader count standing at
  \<open>n - rwmutexMaxReaders\<close> for the \<open>n\<close> readers that arrived since and are blocked),
  \<^verbatim>\<open>RWMutex.Unlock\<close> first adds \<^verbatim>\<open>rwmutexMaxReaders\<close> to the reader count, then
  releases the reader semaphore exactly \<open>n\<close> times, then unlocks the internal mutex, whose
  locked bit is clear afterwards.
\<close>

theorem RWMutex_Unlock_write_held:
  assumes rc: "readerCount rw = of_nat n - rwmutexMaxReaders"
    and n: "n < 2 ^ 30"
    and held: "state (w rw) AND mutexLocked \<noteq> 0"
  shows "\<exists>mx' tw. Mutex_Unlock (w rw) = Ret (mx', AtomicAdd State (- 1) # tw)
           \<and> state mx' AND mutexLocked = 0
           \<and> RWMutex_Unlock rw =
               Ret (rw\<lparr>readerCount := of_nat n, readerSem := readerSem rw + of_nat n, w := mx'\<rparr>,
                    AtomicAdd ReaderCount (2 ^ 30) # replicate n (Semrelease ReaderSem False 0)
                    @ AtomicAdd (In_w State) (- 1) # map (relocate In_w) tw)"
proof -
  from Unlock_locked_released [OF held] obtain mx' tw
    where u: "Mutex_Unlock (w rw) = Ret (mx', AtomicAdd State (- 1) # tw)"
      and f: "state mx' AND mutexLocked = 0" by blast
  have r: "readerCount rw + rwmutexMaxReaders = of_nat n" by (simp add: rc)
  have sr: "sint (of_nat n :: 32 word) = int n" by (rule sint_of_nat_small [OF n])
  have nf: "\<not> rwmutexMaxReaders \<le>s of_nat n"
    using n by (simp add: word_sle_eq sr sint_maxReaders)
  have loop: "release_readers 0 (int n) (readerSem rw) =
      (readerSem rw + of_nat n, replicate n (Semrelease ReaderSem False 0))"
    using release_readers_closed [of 0 "int n" "readerSem rw"] by simp
  have "RWMutex_Unlock rw =
      Ret (rw\<lparr>readerCount := of_nat n, readerSem := readerSem rw + of_nat n, w := mx'\<rparr>,
           AtomicAdd ReaderCount (2 ^ 30) # replicate n (Semrelease ReaderSem False 0)
           @ AtomicAdd (In_w State) (- 1) # map (relocate In_w) tw)"
    unfolding RWMutex_Unlock_def Let_def r
    using nf by (simp add: sr loop u sint_maxReaders)
  with u f show ?thesis by blast
qed

theorem RWMutex_Unlock_write_held_witness:
  "RWMutex_Unlock
     \<lparr>w = \<lparr>state = 1, sema = 0\<rparr>, writerSem = 0, readerSem = 0,
      readerCount = 2 - rwmutexMaxReaders, readerWait = 0\<rparr>
   = Ret (\<lparr>w = \<lparr>state = 0, sema = 0\<rparr>, writerSem = 0, readerSem = 2, readerCount = 2,
           readerWait = 0\<rparr>,
          [AtomicAdd ReaderCount (2 ^ 30), Semrelease ReaderSem False 0,
           Semrelease ReaderSem False 0, AtomicAdd (In_w State) (- 1)])"
proof -
  define rw where "rw = \<lparr>w = \<lparr>state = 1, sema = 0\<rparr>, writerSem = 0, readerSem = 0,
      readerCount = 2 - rwmutexMaxReaders, readerWait = 0\<rparr>"
  have h1: "readerCount rw = of_nat 2 - rwmutexMaxReaders" by (simp add: rw_def)
  have h2: "(2::nat) < 2 ^ 30" by simp
  have h3: "state (w rw) AND mutexLocked \<noteq> 0" by (simp add: rw_def mutexLocked_def)
  have u: "Mutex_Unlock (w rw) = Ret (\<lparr>state = 0, sema = 0\<rparr>, [AtomicAdd State (- 1)])"
    by (simp add: rw_def Mutex_Unlock_def mutexLocked_def Let_def)
  from RWMutex_Unlock_write_held [OF h1 h2 h3] u
  have "RWMutex_Unlock rw =
      Ret (rw\<lparr>readerCount := of_nat 2, readerSem := readerSem rw + of_nat 2,
              w := \<lparr>state = 0, sema = 0\<rparr>\<rparr>,
           AtomicAdd ReaderCount (2 ^ 30) # replicate 2 (Semrelease ReaderSem False 0)
           @ AtomicAdd (In_w State) (- 1) # map (relocate In_w) [])"
    by auto
  then show ?thesis by (simp add: rw_def numeral_2_eq_2)
qed

text \<open>
  C5, as the code has it: \<^verbatim>\<open>RWMutex.RUnlock\<close> decrements the reader count.  When the
  result is negative and the lock was read-locked on entry (the count before the
  decrement is neither zero nor \<open>- rwmutexMaxReaders\<close>), a writer is pending: the call
  decrements \<^verbatim>\<open>readerWait\<close> and releases the writer semaphore once exactly when
  \<^verbatim>\<open>readerWait\<close> has reached zero.  When the result is negative and the count before
  was zero or \<open>- rwmutexMaxReaders\<close>, nobody held the lock for reading and the call ends
  in \<^verbatim>\<open>fatal\<close>, \<^verbatim>\<open>readerWait\<close> untouched.
\<close>

theorem RUnlock_cases:
  "(\<not> readerCount rw - 1 <s 0 \<longrightarrow>
      RWMutex_RUnlock rw = Ret (rw\<lparr>readerCount := readerCount rw - 1\<rparr>, [AtomicAdd ReaderCount (- 1)]))
   \<and> (readerCount rw - 1 <s 0 \<and> readerCount rw \<noteq> 0 \<and> readerCount rw \<noteq> - rwmutexMaxReaders \<longrightarrow>
      RWMutex_RUnlock rw =
        Ret (rw\<lparr>readerCount := readerCount rw - 1, readerWait := readerWait rw - 1,
                writerSem := (if readerWait rw - 1 = 0 then writerSem rw + 1 else writerSem rw)\<rparr>,
             AtomicAdd ReaderCount (- 1) # AtomicAdd ReaderWait (- 1)
             # (if readerWait rw - 1 = 0 then [Semrelease WriterSem False 1] else [])))
   \<and> (readerCount rw - 1 <s 0 \<and> (readerCount rw = 0 \<or> readerCount rw = - rwmutexMaxReaders) \<longrightarrow>
      RWMutex_RUnlock rw = Fatal ''sync: RUnlock of unlocked RWMutex'')"
  by (simp add: RWMutex_RUnlock_def rUnlockSlow_def Let_def runtime_Semrelease_def)


theorem RUnlock_cases_witness:
  "RWMutex_RUnlock
     \<lparr>w = \<lparr>state = 0, sema = 0\<rparr>, writerSem = 0, readerSem = 0, readerCount = 2, readerWait = 0\<rparr>
   = Ret (\<lparr>w = \<lparr>state = 0, sema = 0\<rparr>, writerSem = 0, readerSem = 0, readerCount = 1,
           readerWait = 0\<rparr>, [AtomicAdd ReaderCount (- 1)])
   \<and> RWMutex_RUnlock
     \<lparr>w = \<lparr>state = 1, sema = 0\<rparr>, writerSem = 0, readerSem = 0,
      readerCount = 1 - rwmutexMaxReaders, readerWait = 1\<rparr>
   = Ret (\<lparr>w = \<lparr>state = 1, sema = 0\<rparr>, writerSem = 1, readerSem = 0,
           readerCount = - rwmutexMaxReaders, readerWait = 0\<rparr>,
          [AtomicAdd ReaderCount (- 1), AtomicAdd ReaderWait (- 1), Semrelease WriterSem False 1])
   \<and> RWMutex_RUnlock
     \<lparr>w = \<lparr>state = 1, sema = 0\<rparr>, writerSem = 0, readerSem = 0,
      readerCount = 2 - rwmutexMaxReaders, readerWait = 2\<rparr>
   = Ret (\<lparr>w = \<lparr>state = 1, sema = 0\<rparr>, writerSem = 0, readerSem = 0,
           readerCount = 1 - rwmutexMaxReaders, readerWait = 1\<rparr>,
          [AtomicAdd ReaderCount (- 1), AtomicAdd ReaderWait (- 1)])
   \<and> RWMutex_RUnlock
     \<lparr>w = \<lparr>state = 1, sema = 0\<rparr>, writerSem = 0, readerSem = 0,
      readerCount = - rwmutexMaxReaders, readerWait = 0\<rparr>
   = Fatal ''sync: RUnlock of unlocked RWMutex''"
  using
    RUnlock_cases [of "\<lparr>w = \<lparr>state = 0, sema = 0\<rparr>, writerSem = 0, readerSem = 0,
      readerCount = 2, readerWait = 0\<rparr>"]
    RUnlock_cases [of "\<lparr>w = \<lparr>state = 1, sema = 0\<rparr>, writerSem = 0, readerSem = 0,
      readerCount = 1 - rwmutexMaxReaders, readerWait = 1\<rparr>"]
    RUnlock_cases [of "\<lparr>w = \<lparr>state = 1, sema = 0\<rparr>, writerSem = 0, readerSem = 0,
      readerCount = 2 - rwmutexMaxReaders, readerWait = 2\<rparr>"]
    RUnlock_cases [of "\<lparr>w = \<lparr>state = 1, sema = 0\<rparr>, writerSem = 0, readerSem = 0,
      readerCount = - rwmutexMaxReaders, readerWait = 0\<rparr>"]
  by (simp add: maxReaders_val word_sless_alt)

text \<open>
  C5 as the specification words it does not hold on the zero value: the decrement gives \<open>-1\<close>,
  which is negative, and the call ends in \<^verbatim>\<open>fatal\<close> with \<^verbatim>\<open>readerWait\<close> not
  decremented and no semaphore released.
\<close>

theorem RUnlock_unlocked_fatal:
  "readerCount \<lparr>w = \<lparr>state = 0, sema = 0\<rparr>, writerSem = 0, readerSem = 0, readerCount = 0,
      readerWait = 0\<rparr> - 1 <s 0
   \<and> RWMutex_RUnlock
       \<lparr>w = \<lparr>state = 0, sema = 0\<rparr>, writerSem = 0, readerSem = 0, readerCount = 0,
        readerWait = 0\<rparr>
     = Fatal ''sync: RUnlock of unlocked RWMutex''"
  by (simp add: RWMutex_RUnlock_def rUnlockSlow_def Let_def word_sless_alt)

lemma TryLock_then_Unlock:
  assumes "state mx AND (mutexLocked OR mutexStarving) = 0"
  shows "Mutex_Unlock (mx\<lparr>state := state mx OR mutexLocked\<rparr>) =
     (if signed_drop_bit mutexWaiterShift (state mx) = 0 \<or> state mx AND mutexWoken \<noteq> 0
      then Ret (mx, [AtomicAdd State (- 1)])
      else Ret (\<lparr>state = (state mx - push_bit mutexWaiterShift 1) OR mutexWoken,
                 sema = sema mx + 1\<rparr>,
                [AtomicAdd State (- 1), AtomicCAS State True, Semrelease Sema False 1]))"
proof -
  have l: "state mx AND mutexLocked = 0" and s: "state mx AND mutexStarving = 0"
    using flags_clear [OF assms] by simp_all
  have restored: "(state mx OR mutexLocked) - mutexLocked = state mx"
    using l by (simp add: mutexLocked_def or_one_minus_one)
  have held: "state (mx\<lparr>state := state mx OR mutexLocked\<rparr>) AND mutexLocked \<noteq> 0"
    by (simp add: mutexLocked_def or_one_and_one)
  have zero: "state mx = 0 \<Longrightarrow> signed_drop_bit mutexWaiterShift (state mx) = 0" by simp
  have flags: "state mx AND (mutexLocked OR mutexWoken OR mutexStarving) \<noteq> 0
      \<longleftrightarrow> state mx AND mutexWoken \<noteq> 0"
    using l s by (simp add: bit.conj_disj_distrib)
  show ?thesis
    using zero s flags
    by (auto simp add: Unlock_locked [OF held] Let_def restored)
qed

text \<open>
  C10, as the code has it: when \<^verbatim>\<open>RWMutex.TryLock\<close> returns false, the reader count,
  \<^verbatim>\<open>readerWait\<close> and both semaphores are as before, and the caller does not hold the
  internal mutex: either it never acquired it (the locked or the starving bit was set, and
  the mutex is untouched), or it acquired and unlocked it.  That unlock restores the mutex,
  except when waiters are queued and none is flagged woken: then it wakes one (one waiter
  less, the woken bit set, the mutex semaphore released once).
\<close>

theorem RWMutex_TryLock_false:
  assumes "RWMutex_TryLock rw = Ret ((False, rw'), t)"
  shows "writerSem rw' = writerSem rw \<and> readerSem rw' = readerSem rw
     \<and> readerCount rw' = readerCount rw \<and> readerWait rw' = readerWait rw
     \<and> w rw' =
        (if state (w rw) AND (mutexLocked OR mutexStarving) \<noteq> 0 then w rw
         else if signed_drop_bit mutexWaiterShift (state (w rw)) = 0
                 \<or> state (w rw) AND mutexWoken \<noteq> 0
         then w rw
         else \<lparr>state = (state (w rw) - push_bit mutexWaiterShift 1) OR mutexWoken,
               sema = sema (w rw) + 1\<rparr>)
     \<and> (state (w rw) AND (mutexLocked OR mutexStarving) = 0 \<longrightarrow>
          state (w rw') AND mutexLocked = 0)"
proof (cases "state (w rw) AND (mutexLocked OR mutexStarving) = 0")
  case False
  then have "Mutex_TryLock (w rw) = (False, w rw, [])"
    by (simp add: Mutex_TryLock_def Let_def)
  with assms False show ?thesis
    by (auto simp: RWMutex_TryLock_def)
next
  case True
  note tl = TryLock_free [OF True]
  note ul = TryLock_then_Unlock [OF True]
  have l: "state (w rw) AND mutexLocked = 0" using flags_clear [OF True] by simp
  have ev: "even (state (w rw))" using l by (simp add: locked_iff_odd)
  have ev2: "even ((state (w rw) - push_bit mutexWaiterShift 1) OR mutexWoken)"
    using ev by (simp add: mutexWaiterShift_def mutexWoken_def even_or_iff)
  from assms True l ev2 show ?thesis
    by (auto simp: RWMutex_TryLock_def tl ul Let_def CompareAndSwapInt32_def locked_iff_odd
             split: if_splits)
qed

theorem RWMutex_TryLock_false_witness:
  "RWMutex_TryLock
     \<lparr>w = \<lparr>state = 2, sema = 0\<rparr>, writerSem = 0, readerSem = 0, readerCount = 3, readerWait = 0\<rparr>
   = Ret ((False,
        \<lparr>w = \<lparr>state = 2, sema = 0\<rparr>, writerSem = 0, readerSem = 0, readerCount = 3,
           readerWait = 0\<rparr>),
      [AtomicCAS (In_w State) True, AtomicCAS ReaderCount False, AtomicAdd (In_w State) (- 1)])
   \<and> state (w \<lparr>w = \<lparr>state = 2, sema = 0\<rparr>, writerSem = 0, readerSem = 0, readerCount = 3,
        readerWait = 0\<rparr>) AND mutexLocked = 0"
proof -
  define rw where "rw = \<lparr>w = \<lparr>state = 2, sema = 0\<rparr>, writerSem = 0, readerSem = 0,
      readerCount = 3, readerWait = 0\<rparr>"
  have h: "RWMutex_TryLock rw =
      Ret ((False, rw),
        [AtomicCAS (In_w State) True, AtomicCAS ReaderCount False, AtomicAdd (In_w State) (- 1)])"
    by (simp add: rw_def RWMutex_TryLock_def Mutex_TryLock_def Mutex_Unlock_def unlockSlow_def
          unlockSlow_loop.simps CompareAndSwapInt32_def Let_def
          mutexLocked_def mutexStarving_def mutexWoken_def mutexWaiterShift_def
          rwmutexMaxReaders_def)
  note c = RWMutex_TryLock_false [OF h]
  note last = c [THEN conjunct2, THEN conjunct2, THEN conjunct2, THEN conjunct2, THEN conjunct2]
  from last have "state (w rw) AND mutexLocked = 0"
    by (simp add: rw_def mutexLocked_def mutexStarving_def)
  with h show ?thesis by (simp add: rw_def)
qed

text \<open>
  C10 as the specification words it does not hold where the internal mutex is free with one waiter
  queued and the lock is read-held: \<^verbatim>\<open>TryLock\<close> returns false, and the mutex it hands
  back has changed (state 8 became 2, its semaphore was released once).
\<close>

theorem RWMutex_TryLock_changes_w:
  "RWMutex_TryLock
     \<lparr>w = \<lparr>state = 8, sema = 0\<rparr>, writerSem = 0, readerSem = 0, readerCount = 1, readerWait = 0\<rparr>
   = Ret ((False,
        \<lparr>w = \<lparr>state = 2, sema = 1\<rparr>, writerSem = 0, readerSem = 0, readerCount = 1,
           readerWait = 0\<rparr>),
      [AtomicCAS (In_w State) True, AtomicCAS ReaderCount False, AtomicAdd (In_w State) (- 1),
       AtomicCAS (In_w State) True, Semrelease (In_w Sema) False 1])
   \<and> \<lparr>w = \<lparr>state = 2, sema = 1\<rparr>, writerSem = 0, readerSem = 0, readerCount = 1,
        readerWait = 0\<rparr>
     \<noteq> \<lparr>w = \<lparr>state = 8, sema = 0\<rparr>, writerSem = 0, readerSem = 0, readerCount = 1,
          readerWait = 0\<rparr>"
  by (simp add: RWMutex_TryLock_def Mutex_TryLock_def Mutex_Unlock_def unlockSlow_def
        unlockSlow_loop.simps CompareAndSwapInt32_def runtime_Semrelease_def Let_def
        mutexLocked_def mutexStarving_def mutexWoken_def mutexWaiterShift_def
        rwmutexMaxReaders_def)


lemma RWMutex_TryLock_returns:
  "\<exists>b rw' t. RWMutex_TryLock rw = Ret ((b, rw'), t)"
proof (cases "state (w rw) AND (mutexLocked OR mutexStarving) = 0")
  case False
  then have "Mutex_TryLock (w rw) = (False, w rw, [])"
    by (simp add: Mutex_TryLock_def Let_def)
  then show ?thesis by (auto simp: RWMutex_TryLock_def)
next
  case True
  show ?thesis
    by (auto simp: RWMutex_TryLock_def TryLock_free [OF True] TryLock_then_Unlock [OF True]
          Let_def CompareAndSwapInt32_def)
qed

text \<open>
  A free lock with no reader is write-held after \<^verbatim>\<open>Lock\<close>, and \<^verbatim>\<open>Unlock\<close>
  gives it back as it was.
\<close>

lemma RWMutex_Lock_free:
  assumes "state (w rw) = 0" and "readerCount rw = 0"
  shows "RWMutex_Lock rt rw =
     Ret (rw\<lparr>w := (w rw)\<lparr>state := mutexLocked\<rparr>, readerCount := - rwmutexMaxReaders\<rparr>,
          [AtomicCAS (In_w State) True, AtomicAdd ReaderCount (- 1073741824)])"
  using assms by (simp add: RWMutex_Lock_def Lock_free Let_def sint_maxReaders)

lemma RWMutex_Lock_then_Unlock:
  assumes "state (w rw) = 0" and "readerCount rw = 0"
  shows "\<exists>rw1 t1 t2. RWMutex_Lock rt rw = Ret (rw1, t1) \<and> RWMutex_Unlock rw1 = Ret (rw, t2)"
proof -
  let ?rw1 = "rw\<lparr>w := (w rw)\<lparr>state := mutexLocked\<rparr>, readerCount := - rwmutexMaxReaders\<rparr>"
  have u: "Mutex_Unlock ((w rw)\<lparr>state := mutexLocked\<rparr>) = Ret (w rw, [AtomicAdd State (- 1)])"
    using assms(1) by (simp add: Unlock_no_waiters)
  have l: "release_readers 0 0 s = (s, [])" for s
    by (subst release_readers.simps) simp
  have "RWMutex_Unlock ?rw1 =
      Ret (rw, [AtomicAdd ReaderCount 1073741824, AtomicAdd (In_w State) (- 1)])"
    using assms(2)
    by (simp add: RWMutex_Unlock_def Let_def u l word_sle_eq sint_maxReaders)
  with RWMutex_Lock_free [OF assms, of rt] show ?thesis by blast
qed

subsection \<open>WaitGroup\<close>

lemma mod_2_64_2_32: "(a :: int) mod 18446744073709551616 mod 4294967296 = a mod 4294967296"
proof -
  have "(4294967296 :: int) dvd 18446744073709551616" by simp
  then show ?thesis by (rule mod_mod_cancel)
qed

lemma low_add_push:
  "(ucast ((s :: 64 word) + push_bit 32 d) :: 32 word) = ucast s"
  by transfer (simp add: take_bit_eq_mod push_bit_eq_mult mod_2_64_2_32)

lemma ucast_zero_push:
  fixes d :: "64 word"
  assumes "(ucast d :: 32 word) = 0"
  shows "push_bit 32 d = 0"
proof (rule bit_word_eqI)
  fix n assume "n < LENGTH(64)"
  have "\<not> bit (ucast d :: 32 word) (n - 32)" using assms by simp
  then show "bit (push_bit 32 d) n = bit (0 :: 64 word) n"
    using \<open>n < LENGTH(64)\<close> by (auto simp: bit_simps)
qed

lemma release_waiters_closed:
  "release_waiters n s = (s + n, replicate (unat n) (Semrelease Sema False 0))"
proof (induction n s rule: release_waiters.induct)
  case (1 n s)
  show ?case
  proof (cases "n = 0")
    case True
    then show ?thesis by (subst release_waiters.simps) simp
  next
    case False
    then have "0 < unat n" by (simp add: unat_gt_0)
    then have "unat n = Suc (unat (n - 1))" using False by (simp add: unat_minus_one)
    with False 1 show ?thesis
      by (subst release_waiters.simps) (simp add: runtime_Semrelease_def)
  qed
qed

text \<open>
  C4: when \<^verbatim>\<open>WaitGroup.Add\<close> takes the counter (the high 32 bits) from a non-zero value
  to zero while the waiter count \<open>n\<close> (the low 32 bits) is not zero, it does not panic, it
  stores zero to the whole state word and it releases the semaphore exactly \<open>n\<close> times.
\<close>

theorem Add_counter_reaches_zero:
  assumes before: "(ucast (drop_bit 32 (wg_state wg)) :: 32 word) \<noteq> 0"
    and after: "(ucast (drop_bit 32 (wg_state wg + push_bit 32 delta)) :: 32 word) = 0"
    and waiters: "(ucast (wg_state wg) :: 32 word) \<noteq> 0"
  shows "WaitGroup_Add wg delta =
     (None,
      \<lparr>wg_state = 0, wg_sema = wg_sema wg + ucast (wg_state wg)\<rparr>,
      [AtomicAdd State (uint (push_bit 32 delta)), AtomicLoad State, AtomicStore State 0]
      @ replicate (unat (ucast (wg_state wg) :: 32 word)) (Semrelease Sema False 0))"
proof -
  have no_misuse: "(ucast delta :: 32 word) \<noteq> 0"
  proof
    assume "(ucast delta :: 32 word) = 0"
    then have "push_bit 32 delta = 0" by (rule ucast_zero_push)
    with before after show False by simp
  qed
  show ?thesis
    unfolding WaitGroup_Add_def Let_def
    using after waiters no_misuse
    by (simp add: low_add_push release_waiters_closed word_sless_alt)
qed


theorem Add_counter_reaches_zero_witness:
  "WaitGroup_Add \<lparr>wg_state = 0x100000003, wg_sema = 0\<rparr> (- 1) =
     (None, \<lparr>wg_state = 0, wg_sema = 3\<rparr>,
      [AtomicAdd State 18446744069414584320, AtomicLoad State, AtomicStore State 0,
       Semrelease Sema False 0, Semrelease Sema False 0, Semrelease Sema False 0])"
proof -
  define wg where "wg = \<lparr>wg_state = 0x100000003, wg_sema = 0\<rparr>"
  have h1: "(ucast (drop_bit 32 (wg_state wg)) :: 32 word) \<noteq> 0"
    by (simp add: wg_def drop_bit_eq_div)
  have h2: "(ucast (drop_bit 32 (wg_state wg + push_bit 32 (- 1))) :: 32 word) = 0"
    by (simp add: wg_def drop_bit_eq_div push_bit_eq_mult)
  have h3: "(ucast (wg_state wg) :: 32 word) \<noteq> 0"
    by (simp add: wg_def)
  have u: "(ucast (wg_state wg) :: 32 word) = 3" by (simp add: wg_def)
  have p: "uint (push_bit 32 (- 1 :: 64 word)) = 18446744069414584320"
    by (simp add: push_bit_eq_mult)
  have n: "unat (3 :: 32 word) = Suc (Suc (Suc 0))" by simp
  show ?thesis
    using Add_counter_reaches_zero [OF h1 h2 h3]
    unfolding u p n by (simp add: wg_def)
qed

subsection \<open>Once\<close>







text \<open>
  Interleaved calls.  A \<^verbatim>\<open>Lock\<close> of a held mutex with an empty semaphore parks the
  goroutine, whatever the scheduler lets it spin; so the steps keep the mutex to one
  goroutine at a time, and every configuration the goroutines reach satisfies
  \<open>once_inv\<close>.  Hence the action runs at most once, a goroutine that has returned from
  \<^verbatim>\<open>Do\<close> finds the action run and the flag set, some goroutine can always take a
  step until all have returned, and then the action has run exactly once.
\<close>

lemma lockSlow_loop_held:
  assumes "state mx = mutexLocked" and "sema mx = 0"
  shows "lockSlow_loop rt mx wst False False iter mutexLocked k = Block"
  using assms
proof (induction "active_spin - iter" arbitrary: iter rule: less_induct)
  case less
  show ?case
  proof (cases "runtime_canSpin rt iter")
    case True
    then have "iter < active_spin" by (simp add: runtime_canSpin_def)
    then have "active_spin - (iter + 1) < active_spin - iter" by arith
    from less.hyps [OF this less.prems] True less.prems show ?thesis
      by (subst lockSlow_loop.simps)
         (simp add: mutexLocked_def mutexStarving_def mutexWoken_def mutexWaiterShift_def)
  next
    case False
    with less.prems show ?thesis
      by (subst lockSlow_loop.simps)
         (simp add: mutexLocked_def mutexStarving_def mutexWoken_def mutexWaiterShift_def
            CompareAndSwapInt32_def runtime_Semacquire_def Let_def)
  qed
qed

lemma Lock_held_blocks:
  assumes "state mx = mutexLocked" and "sema mx = 0"
  shows "Mutex_Lock rt mx = Block"
  using lockSlow_loop_held [OF assms, of rt 0 0 0] assms
  by (simp add: Mutex_Lock_def lockSlow_def CompareAndSwapInt32_def mutexLocked_def)


lemma one_in_crit:
  assumes "size (filter_mset Q M) = 1" and "a \<in># M" and "Q a"
  shows "\<forall>b. b \<in># M - {#a#} \<longrightarrow> \<not> Q b"
proof -
  from assms(2) have e: "add_mset a (M - {#a#}) = M" by (rule insert_DiffM)
  have "filter_mset Q (add_mset a (M - {#a#})) = add_mset a (filter_mset Q (M - {#a#}))"
    using assms(3) by simp
  then have "size (filter_mset Q M) = Suc (size (filter_mset Q (M - {#a#})))"
    by (simp only: e size_add_mset)
  with assms(1) have "size (filter_mset Q (M - {#a#})) = 0" by simp
  then have "filter_mset Q (M - {#a#}) = {#}" by (simp only: size_eq_0_iff_empty)
  then show ?thesis unfolding filter_mset_eq_mempty_iff by blast
qed

lemma in_remove1_mset_neq:
  assumes "a \<noteq> b"
  shows "a \<in># M - {#b#} \<longleftrightarrow> a \<in># M"
  using assms by (simp add: in_diff_count)

lemma size_filter_move:
  assumes "p \<in># M"
  shows "size (filter_mset Q (add_mset q (M - {#p#})))
       = size (filter_mset Q M) - (if Q p then 1 else 0) + (if Q q then 1 else 0)"
  using assms by (simp add: size_Diff_singleton_if)

lemma crit_move:
  assumes "p \<in># threads c"
  shows "crit (move p q c) = crit c - (if in_crit p then 1 else 0) + (if in_crit q then 1 else 0)"
  using size_filter_move [OF assms, of in_crit q] by (simp add: crit_def move_def)

lemma threads_move: "threads (move p q c) = add_mset q (threads c - {#p#})"
  by (simp add: move_def)

lemma fields_move [simp]:
  "once (move p q c) = once c" "user (move p q c) = user c" "calls (move p q c) = calls c"
  by (simp_all add: move_def)

lemma crit_fields [simp]:
  "crit (c\<lparr>once := x\<rparr>) = crit c" "crit (c\<lparr>user := y\<rparr>) = crit c" "crit (c\<lparr>calls := z\<rparr>) = crit c"
  by (simp_all add: crit_def)

lemma crit_pos:
  assumes "p \<in># threads c" and "in_crit p"
  shows "crit c \<noteq> 0"
  using assms by (auto simp: crit_def)

lemma once_inv_start: "once_inv (start n u)"
  by (simp add: once_inv_def start_def crit_def in_crit_def)

lemma once_inv_step:
  assumes "step rt f c c'" and "once_inv c"
  shows "once_inv c'"
  using assms
proof (cases rule: step.cases)
  case fast_done
  with assms(2) show ?thesis
    by (auto simp: once_inv_def crit_move in_crit_def threads_move in_remove1_mset_neq
          dest: in_diffD)
next
  case fast_miss
  with assms(2) show ?thesis
    by (auto simp: once_inv_def crit_move in_crit_def threads_move in_remove1_mset_neq
          dest: in_diffD)
next
  case (lock mx t)
  have free: "state (m (once c)) = 0 \<and> crit c = 0"
  proof (rule ccontr)
    assume "\<not> ?thesis"
    with assms(2) have "state (m (once c)) = mutexLocked" "sema (m (once c)) = 0"
      by (auto simp: once_inv_def)
    then have "Mutex_Lock rt (m (once c)) = Block" by (rule Lock_held_blocks)
    with lock show False by simp
  qed
  with lock have mx: "mx = (m (once c))\<lparr>state := mutexLocked\<rparr>"
    by (simp add: Lock_free)
  from free have none: "\<not> in_crit p" if "p \<in># threads c" for p
    using that by (simp add: crit_def filter_mset_eq_mempty_iff)
  from none have "Ran \<notin># threads c" "Unlocking \<notin># threads c"
    by (auto simp: in_crit_def)
  with assms(2) lock(1,2) free show ?thesis
    by (auto simp: once_inv_def mx crit_move in_crit_def threads_move in_remove1_mset_neq
          dest: in_diffD)
next
  case check_run
  from check_run(2) assms(2) have one: "crit c = 1"
    by (auto simp: once_inv_def crit_def filter_mset_eq_mempty_iff in_crit_def)
  then have sz: "size (filter_mset in_crit (threads c)) = 1" by (simp add: crit_def)
  have ic: "in_crit Locked" by (simp add: in_crit_def)
  note others = one_in_crit [OF sz check_run(2) ic]
  then have "Ran \<notin># threads c - {#Locked#}" by (auto simp: in_crit_def)
  then have noran: "Ran \<notin># threads c" by (simp add: in_remove1_mset_neq)
  with assms(2) check_run one others show ?thesis
    by (auto simp: once_inv_def crit_move in_crit_def threads_move in_remove1_mset_neq
          dest: in_diffD)
next
  case check_skip
  from check_skip(2) have "crit c \<noteq> 0" by (rule crit_pos) (simp add: in_crit_def)
  with check_skip assms(2) show ?thesis
    by (auto simp: once_inv_def crit_move in_crit_def threads_move in_remove1_mset_neq
          dest: in_diffD)
next
  case store
  from store(2) assms(2) have one: "crit c = 1"
    by (auto simp: once_inv_def crit_def filter_mset_eq_mempty_iff in_crit_def)
  then have sz: "size (filter_mset in_crit (threads c)) = 1" by (simp add: crit_def)
  have ic: "in_crit Ran" by (simp add: in_crit_def)
  note others = one_in_crit [OF sz store(2) ic]
  then have "Ran \<notin># threads c - {#Ran#}" by (auto simp: in_crit_def)
  with assms(2) store one show ?thesis
    by (auto simp: once_inv_def crit_move in_crit_def threads_move in_remove1_mset_neq
          split: if_splits)
next
  case (unlock mx t)
  from unlock(2) assms(2) have one: "crit c = 1" and held: "state (m (once c)) = mutexLocked"
    by (auto simp: once_inv_def crit_def filter_mset_eq_mempty_iff in_crit_def)
  with unlock have mx: "mx = (m (once c))\<lparr>state := 0\<rparr>"
    by (simp add: Unlock_no_waiters)
  from assms(2) unlock(2) have dn: "done_flag (once c) = 1"
    by (auto simp: once_inv_def split: if_splits)
  with assms(2) unlock(1,2) one show ?thesis
    by (auto simp: once_inv_def mx crit_move in_crit_def threads_move in_remove1_mset_neq
          dest: in_diffD)
qed

lemma reachable_inv:
  assumes "reachable rt f n u c"
  shows "once_inv c"
  using assms by (induction rule: reachable.induct) (auto intro: once_inv_start once_inv_step)

lemma interleaved_once:
  assumes "reachable rt f n u c"
  shows "calls c \<le> 1"
    and "Returned \<in># threads c \<Longrightarrow> calls c = 1 \<and> done_flag (once c) = 1"
  using reachable_inv [OF assms] by (auto simp: once_inv_def split: if_splits)


lemma reachable_size:
  assumes "reachable rt f n u c"
  shows "size (threads c) = n"
  using assms
proof (induction rule: reachable.induct)
  case init
  show ?case by (simp add: start_def)
next
  case (further c c')
  from further(2) have "size (threads c') = size (threads c)"
    by (cases rule: step.cases) (simp_all add: threads_move size_Suc_Diff1)
  with further show ?case by simp
qed

lemma interleaved_all_returned:
  assumes "reachable rt f n u c" and "0 < n" and "\<forall>p. p \<in># threads c \<longrightarrow> p = Returned"
  shows "calls c = 1 \<and> done_flag (once c) = 1"
proof -
  from reachable_size [OF assms(1)] assms(2) have "threads c \<noteq> {#}" by auto
  then obtain p where "p \<in># threads c" by (auto simp: multiset_nonemptyE)
  with assms(3) have "Returned \<in># threads c" by auto
  with interleaved_once(2) [OF assms(1)] show ?thesis by simp
qed

lemma crit_step:
  assumes "once_inv c" and "q \<in># threads c" and "in_crit q"
  shows "\<exists>c'. step rt f c c'"
proof -
  from crit_pos [OF assms(2,3)] assms(1) have held: "state (m (once c)) = mutexLocked"
    by (auto simp: once_inv_def)
  from assms(3) consider "q = Locked" | "q = Ran" | "q = Unlocking"
    by (auto simp: in_crit_def)
  then show ?thesis
  proof cases
    case 1
    with assms(2) show ?thesis
      by (cases "done_flag (once c) = 0") (blast intro: step.check_run step.check_skip)+
  next
    case 2
    with assms(2) show ?thesis by (blast intro: step.store)
  next
    case 3
    with assms(2) Unlock_no_waiters [OF held] show ?thesis by (blast intro: step.unlock)
  qed
qed

lemma interleaved_progress:
  assumes "reachable rt f n u c" and "p \<in># threads c" and "p \<noteq> Returned"
  shows "\<exists>c'. step rt f c c'"
proof -
  note i = reachable_inv [OF assms(1)]
  show ?thesis
  proof (cases p)
    case Entry
    with assms(2) show ?thesis
      by (cases "done_flag (once c) = 0") (blast intro: step.fast_miss step.fast_done)+
  next
    case Slow
    show ?thesis
    proof (cases "state (m (once c)) = 0")
      case True
      from Lock_free [OF True, of rt] Slow assms(2) show ?thesis by (blast intro: step.lock)
    next
      case False
      with i have "crit c = 1" by (auto simp: once_inv_def)
      then have "size (filter_mset in_crit (threads c)) \<noteq> 0" by (simp add: crit_def)
      then have "filter_mset in_crit (threads c) \<noteq> {#}" by (metis size_empty)
      then obtain q where "q \<in># threads c" "in_crit q"
        unfolding filter_mset_eq_mempty_iff by blast
      then show ?thesis by (rule crit_step [OF i])
    qed
  next
    case Locked
    with assms(2) have "Locked \<in># threads c" by simp
    moreover have "in_crit Locked" by (simp add: in_crit_def)
    ultimately show ?thesis by (rule crit_step [OF i])
  next
    case Ran
    with assms(2) have "Ran \<in># threads c" by simp
    moreover have "in_crit Ran" by (simp add: in_crit_def)
    ultimately show ?thesis by (rule crit_step [OF i])
  next
    case Unlocking
    with assms(2) have "Unlocking \<in># threads c" by simp
    moreover have "in_crit Unlocking" by (simp add: in_crit_def)
    ultimately show ?thesis by (rule crit_step [OF i])
  next
    case Returned
    with assms(3) show ?thesis by simp
  qed
qed

subsection \<open>Map\<close>

lemma Load_miss_step:
  assumes "lookup (readOnly.m (loadReadOnly mp)) key = None"
    and "amended (loadReadOnly mp)"
    and "state (mu mp) = 0"
  shows "\<exists>t. Map_Load rt mp key =
     Ret ((case lookup (dirty mp) key of None \<Rightarrow> None | Some r \<Rightarrow> entry_load (entries mp r),
           if sint (misses mp + 1) < len (dirty mp) then mp\<lparr>misses := misses mp + 1\<rparr>
           else mp\<lparr>read := Some \<lparr>readOnly.m = dirty mp, amended = False\<rparr>, dirty := None,
                   misses := 0\<rparr>), t)"
proof -
  have same: "(mu mp)\<lparr>state := 0\<rparr> = mu mp" using assms(3) by simp
  have ro: "loadReadOnly (mp\<lparr>mu := x\<rparr>) = loadReadOnly mp" for x
    by (simp add: loadReadOnly_def)
  have ml: "missLocked (mp\<lparr>mu := x\<rparr>) = (missLocked mp)\<lparr>mu := x\<rparr>" for x
    by (simp add: missLocked_def Let_def)
  have mu_ml: "mu (missLocked mp) = mu mp" and en_ml: "entries (missLocked mp) = entries mp"
    by (simp_all add: missLocked_def Let_def)
  have fin: "(missLocked mp)\<lparr>mu := mu mp\<rparr> = missLocked mp"
    by (simp add: missLocked_def Let_def)
  have ml_eq: "missLocked mp =
      (if sint (misses mp + 1) < len (dirty mp) then mp\<lparr>misses := misses mp + 1\<rparr>
       else mp\<lparr>read := Some \<lparr>readOnly.m = dirty mp, amended = False\<rparr>, dirty := None,
               misses := 0\<rparr>)"
    by (simp add: missLocked_def Let_def)
  show ?thesis
    using assms(1,2)
    by (cases "lookup (dirty mp) key")
       (simp_all add: Map_Load_def Let_def Lock_free [OF assms(3)] Unlock_no_waiters ro ml
          mu_ml en_ml same fin ml_eq)
qed


text \<open>
  C7: a \<^verbatim>\<open>Load\<close> of a key the read-only map does not hold, while the map is marked
  amended, takes the lock and counts a miss.  While the count stays below the length of
  the dirty map, the count is all that changes; as soon as it reaches that length, the
  dirty map becomes the read-only map (not amended), the dirty map is nil and the count is
  zero again.  The value returned is the one the dirty map held for the key.
\<close>

theorem Load_miss:
  assumes "lookup (readOnly.m (loadReadOnly mp)) key = None"
    and "amended (loadReadOnly mp)"
    and "state (mu mp) = 0"
  shows "\<exists>t. Map_Load rt mp key =
     Ret ((case lookup (dirty mp) key of None \<Rightarrow> None | Some r \<Rightarrow> entry_load (entries mp r),
           if sint (misses mp + 1) < len (dirty mp) then mp\<lparr>misses := misses mp + 1\<rparr>
           else mp\<lparr>read := Some \<lparr>readOnly.m = dirty mp, amended = False\<rparr>, dirty := None,
                   misses := 0\<rparr>), t)"
  using assms by (rule Load_miss_step)

theorem Load_miss_witness:
  "lookup (readOnly.m (loadReadOnly map_two)) 2 = None
   \<and> amended (loadReadOnly map_two)
   \<and> state (mu map_two) = 0
   \<and> (\<exists>t. Map_Load rt0 map_two 2 = Ret ((Some ''b'', map_two\<lparr>misses := 1\<rparr>), t))
   \<and> lookup (readOnly.m (loadReadOnly (map_two\<lparr>misses := 1\<rparr>))) 3 = None
   \<and> amended (loadReadOnly (map_two\<lparr>misses := 1\<rparr>))
   \<and> state (mu (map_two\<lparr>misses := 1\<rparr>)) = 0
   \<and> (\<exists>t. Map_Load rt0 (map_two\<lparr>misses := 1\<rparr>) 3 =
          Ret ((None,
                map_two\<lparr>read := Some \<lparr>readOnly.m = Some [(1, 0), (2, 1)], amended = False\<rparr>,
                        dirty := None, misses := 0\<rparr>), t))"
proof -
  have a1: "lookup (readOnly.m (loadReadOnly map_two)) 2 = None"
    and a2: "amended (loadReadOnly map_two)"
    and a3: "state (mu map_two) = 0"
    by (simp_all add: map_two_def loadReadOnly_def lookup_def)
  have b1: "lookup (readOnly.m (loadReadOnly (map_two\<lparr>misses := 1\<rparr>))) 3 = None"
    and b2: "amended (loadReadOnly (map_two\<lparr>misses := 1\<rparr>))"
    and b3: "state (mu (map_two\<lparr>misses := 1\<rparr>)) = 0"
    by (simp_all add: map_two_def loadReadOnly_def lookup_def)
  from Load_miss [OF a1 a2 a3, of rt0]
  have first: "\<exists>t. Map_Load rt0 map_two 2 = Ret ((Some ''b'', map_two\<lparr>misses := 1\<rparr>), t)"
    by (simp add: map_two_def len_def lookup_def entry_load_def)
  from Load_miss [OF b1 b2 b3, of rt0]
  have second: "\<exists>t. Map_Load rt0 (map_two\<lparr>misses := 1\<rparr>) 3 =
          Ret ((None,
                map_two\<lparr>read := Some \<lparr>readOnly.m = Some [(1, 0), (2, 1)], amended = False\<rparr>,
                        dirty := None, misses := 0\<rparr>), t)"
    by (simp add: map_two_def len_def lookup_def entry_load_def)
  from a1 a2 a3 b1 b2 b3 first second show ?thesis by blast
qed

text \<open>
  The amortisation the counter is there for: from a count of zero, as many missing loads
  as the dirty map has keys leave the dirty map in place up to the last one, which
  promotes it.
\<close>

lemma sint_succ_64:
  fixes x :: "64 word"
  assumes "sint x + 1 < 2 ^ 63"
  shows "sint (x + 1) = sint x + 1"
proof -
  have lo: "- (2 ^ 63) \<le> sint x + 1" using sint_ge [of x] by simp
  have "sint (x + 1) = signed_take_bit 63 (sint x + 1)"
    by (simp add: sint_word_ariths)
  also have "\<dots> = sint x + 1"
    using lo assms by (intro signed_take_bit_int_eq_self) simp_all
  finally show ?thesis .
qed

lemma Load_miss_counts:
  assumes "lookup (readOnly.m (loadReadOnly mp)) key = None"
    and "amended (loadReadOnly mp)"
    and "state (mu mp) = 0"
    and "sint (misses mp) + 1 < len (dirty mp)"
    and "len (dirty mp) < 2 ^ 63"
  shows "\<exists>v t. Map_Load rt mp key = Ret ((v, mp\<lparr>misses := misses mp + 1\<rparr>), t)"
proof -
  have "sint (misses mp + 1) = sint (misses mp) + 1"
    using assms(4,5) by (intro sint_succ_64) simp
  with assms(4) have "sint (misses mp + 1) < len (dirty mp)" by simp
  with Load_miss_step [OF assms(1-3), of rt] show ?thesis by auto
qed

lemma Load_miss_promotes:
  assumes "lookup (readOnly.m (loadReadOnly mp)) key = None"
    and "amended (loadReadOnly mp)"
    and "state (mu mp) = 0"
    and "sint (misses mp) + 1 = len (dirty mp)"
    and "len (dirty mp) < 2 ^ 63"
  shows "\<exists>v t. Map_Load rt mp key =
     Ret ((v, mp\<lparr>read := Some \<lparr>readOnly.m = dirty mp, amended = False\<rparr>, dirty := None,
                   misses := 0\<rparr>), t)"
proof -
  have "sint (misses mp + 1) = sint (misses mp) + 1"
    using assms(4,5) by (intro sint_succ_64) simp
  with assms(4) have "\<not> sint (misses mp + 1) < len (dirty mp)" by simp
  with Load_miss_step [OF assms(1-3), of rt] show ?thesis by auto
qed

lemma Load_calls_count:
  assumes "\<forall>key \<in> set keys. lookup (readOnly.m (loadReadOnly mp)) key = None"
    and "amended (loadReadOnly mp)"
    and "state (mu mp) = 0"
    and "sint (misses mp) + int (length keys) < len (dirty mp)"
    and "len (dirty mp) < 2 ^ 63"
  shows "Load_calls rt mp keys = Ret (mp\<lparr>misses := misses mp + of_nat (length keys)\<rparr>)"
  using assms
proof (induction keys arbitrary: mp)
  case Nil
  then show ?case by simp
next
  case (Cons key keys)
  let ?mp = "mp\<lparr>misses := misses mp + 1\<rparr>"
  have step: "sint (misses mp) + 1 < len (dirty mp)" using Cons.prems(4) by simp
  have s1: "sint (misses mp + 1) = sint (misses mp) + 1"
    using step Cons.prems(5) by (intro sint_succ_64) simp
  from Load_miss_counts [of mp key rt] Cons.prems step
  obtain v t where l: "Map_Load rt mp key = Ret ((v, ?mp), t)" by auto
  have ro: "loadReadOnly ?mp = loadReadOnly mp" by (simp add: loadReadOnly_def)
  have "Load_calls rt ?mp keys = Ret (?mp\<lparr>misses := misses ?mp + of_nat (length keys)\<rparr>)"
    using Cons.prems by (intro Cons.IH) (simp_all add: ro s1)
  then show ?case by (simp add: l add.assoc add.commute)
qed

lemma Load_calls_append:
  "Load_calls rt mp keys = Ret mp' \<Longrightarrow> Load_calls rt mp (keys @ rest) = Load_calls rt mp' rest"
  by (induction keys arbitrary: mp) (auto split: res.splits)

lemma Load_calls_promote:
  assumes miss: "\<forall>key \<in> set keys. lookup (readOnly.m (loadReadOnly mp)) key = None"
    and am: "amended (loadReadOnly mp)"
    and free: "state (mu mp) = 0"
    and fresh: "misses mp = 0"
    and n: "int (length keys) = len (dirty mp)"
    and ne: "keys \<noteq> []"
    and bound: "len (dirty mp) < 2 ^ 63"
  shows "Load_calls rt mp keys =
     Ret (mp\<lparr>read := Some \<lparr>readOnly.m = dirty mp, amended = False\<rparr>, dirty := None,
             misses := 0\<rparr>)"
proof -
  from ne obtain ks k where keys: "keys = ks @ [k]" by (metis rev_exhaust)
  let ?mp = "mp\<lparr>misses := of_nat (length ks)\<rparr>"
  have "Load_calls rt mp ks = Ret (mp\<lparr>misses := misses mp + of_nat (length ks)\<rparr>)"
    using miss am free n bound by (intro Load_calls_count) (simp_all add: keys fresh)
  then have first: "Load_calls rt mp ks = Ret ?mp" by (simp add: fresh)
  have ro: "loadReadOnly ?mp = loadReadOnly mp" by (simp add: loadReadOnly_def)
  have "int (length ks) < 2 ^ 63" using n bound by (simp add: keys)
  then have sn: "sint (of_nat (length ks) :: 64 word) = int (length ks)"
    by (simp add: signed_of_nat signed_take_bit_int_eq_self)
  from Load_miss_promotes [of ?mp k rt]
  obtain v t where "Map_Load rt ?mp k =
      Ret ((v, ?mp\<lparr>read := Some \<lparr>readOnly.m = dirty ?mp, amended = False\<rparr>, dirty := None,
                   misses := 0\<rparr>), t)"
    using miss am free n bound by (auto simp: ro keys sn)
  then have last: "Load_calls rt ?mp [k] =
      Ret (mp\<lparr>read := Some \<lparr>readOnly.m = dirty mp, amended = False\<rparr>, dirty := None,
              misses := 0\<rparr>)"
    by simp
  show ?thesis
    unfolding keys by (simp only: Load_calls_append [OF first] last)
qed


subsection \<open>Pool\<close>

lemma pin_fast:
  assumes "procPin sc < localSize (pools g pr)"
    and "localSize (pools g pr) \<le> length (local (pools g pr))"
  shows "pin rt sc g pr = Ret (g, procPin sc)"
  using assms by (simp add: pin_def indexLocal_def Let_def)

lemma pin_slow:
  assumes "localSize (pools g pr) \<le> procPin sc"
    and "procPin sc < GOMAXPROCS sc"
    and "state (allPoolsMu g) = 0"
  shows "pin rt sc g pr =
     Ret (set_pool
            (if local (pools g pr) = [] then g\<lparr>allPools := allPools g @ [pr]\<rparr> else g) pr
            ((pools g pr)\<lparr>local := make_locals (GOMAXPROCS sc), localSize := GOMAXPROCS sc\<rparr>),
          procPin sc)"
proof -
  have same: "(allPoolsMu g)\<lparr>state := 0\<rparr> = allPoolsMu g" using assms(3) by simp
  show ?thesis
    using assms(1,2)
    by (simp add: pin_def pinSlow_def Let_def Lock_free [OF assms(3)] Unlock_no_waiters
          set_pool_def same)
qed

text \<open>
  C9: \<^verbatim>\<open>Pool.Put\<close> of nil returns at once; the pools and the package's globals are
  what they were, whatever the scheduler and the race detector say.
\<close>

theorem Put_nil_noop: "Pool_Put rt sc g pr None = Ret g"
  by (simp add: Pool_Put_def)

theorem Put_nil_noop_witness:
  "Pool_Put rt0 sc0 (globals_of pool_held) 0 None = Ret (globals_of pool_held)"
  using Put_nil_noop [of rt0 sc0 "globals_of pool_held" 0] by simp

lemma set_pool_same: "set_pool g pr (pools g pr) = g"
  by (simp add: set_pool_def)

lemma set_pool_twice: "set_pool (set_pool g pr p) pr q = set_pool g pr q"
  by (simp add: set_pool_def)

lemma pools_set_pool: "pools (set_pool g pr p) pr = p"
  by (simp add: set_pool_def)

text \<open>
  C8, as the code has it: a \<^verbatim>\<open>Put\<close> of a non-nil item \<open>v\<close> that the race detector
  does not drop, followed by a \<^verbatim>\<open>Get\<close> pinned to the same processor, gives \<open>v\<close> back
  when the private slot of the caller's shard is empty at the \<^verbatim>\<open>Put\<close> (the pool is
  then as it was before the two calls), and also when the pool has no shard for the
  processor yet, so that \<^verbatim>\<open>Put\<close> allocates the shards.  When the private slot already
  holds an item \<open>y\<close>, \<^verbatim>\<open>Put\<close> pushes \<open>v\<close> on the shard's chain and \<^verbatim>\<open>Get\<close>
  returns \<open>y\<close>.
\<close>

theorem Put_then_Get:
  assumes kept: "\<not> (race_Enabled sc \<and> fastrandn sc 4 = 0)"
  shows "(procPin sc < localSize (pools g pr)
          \<and> localSize (pools g pr) \<le> length (local (pools g pr))
          \<and> private_slot (local (pools g pr) ! procPin sc) = None
          \<longrightarrow> (\<exists>g1. Pool_Put rt sc g pr (Some v) = Ret g1
                   \<and> Pool_Get rt sc g1 pr = Ret (Some v, g)))
      \<and> (procPin sc < localSize (pools g pr)
          \<and> localSize (pools g pr) \<le> length (local (pools g pr))
          \<and> private_slot (local (pools g pr) ! procPin sc) = Some y
          \<longrightarrow> (\<exists>g1 g2. Pool_Put rt sc g pr (Some v) = Ret g1
                   \<and> Pool_Get rt sc g1 pr = Ret (Some y, g2)))
      \<and> (localSize (pools g pr) \<le> procPin sc \<and> procPin sc < GOMAXPROCS sc
          \<and> state (allPoolsMu g) = 0
          \<longrightarrow> (\<exists>g1 g2. Pool_Put rt sc g pr (Some v) = Ret g1
                   \<and> Pool_Get rt sc g1 pr = Ret (Some v, g2)))"
proof (intro conjI impI)
  let ?p = "pools g pr" and ?i = "procPin sc"
  have nk: "(race_Enabled sc \<and> fastrandn sc 4 = 0) = False" using kept by simp
  {
    assume a: "?i < localSize ?p \<and> localSize ?p \<le> length (local ?p)
        \<and> private_slot (local ?p ! ?i) = None"
    let ?l = "local ?p ! ?i"
    let ?p1 = "?p\<lparr>local := (local ?p)[?i := ?l\<lparr>private_slot := Some v\<rparr>]\<rparr>"
    let ?g1 = "set_pool g pr ?p1"
    have put: "Pool_Put rt sc g pr (Some v) = Ret ?g1"
      using a by (simp add: Pool_Put_def pin_fast Let_def nk)
    have pin1: "pin rt sc ?g1 pr = Ret (?g1, ?i)"
      using a by (intro pin_fast) (simp_all add: pools_set_pool)
    have l: "?l\<lparr>private_slot := None\<rparr> = ?l" using a by simp
    have get: "Pool_Get rt sc ?g1 pr = Ret (Some v, g)"
      using a
      by (simp add: Pool_Get_def pin1 Let_def pools_set_pool set_pool_twice l set_pool_same
            split: option.splits)
    from put get show "\<exists>g1. Pool_Put rt sc g pr (Some v) = Ret g1
        \<and> Pool_Get rt sc g1 pr = Ret (Some v, g)" by blast
  }
  {
    assume a: "?i < localSize ?p \<and> localSize ?p \<le> length (local ?p)
        \<and> private_slot (local ?p ! ?i) = Some y"
    let ?l = "local ?p ! ?i"
    let ?p1 = "?p\<lparr>local := (local ?p)[?i := ?l\<lparr>shared := pushHead (shared ?l) v\<rparr>]\<rparr>"
    let ?g1 = "set_pool g pr ?p1"
    have put: "Pool_Put rt sc g pr (Some v) = Ret ?g1"
      using a by (simp add: Pool_Put_def pin_fast Let_def nk)
    have pin1: "pin rt sc ?g1 pr = Ret (?g1, ?i)"
      using a by (intro pin_fast) (simp_all add: pools_set_pool)
    have get: "\<exists>g2. Pool_Get rt sc ?g1 pr = Ret (Some y, g2)"
      using a
      by (simp add: Pool_Get_def pin1 Let_def pools_set_pool set_pool_twice
            split: option.splits)
    from put get show "\<exists>g1 g2. Pool_Put rt sc g pr (Some v) = Ret g1
        \<and> Pool_Get rt sc g1 pr = Ret (Some y, g2)" by blast
  }
  {
    assume a: "localSize ?p \<le> ?i \<and> ?i < GOMAXPROCS sc \<and> state (allPoolsMu g) = 0"
    define g0 where "g0 = (if local ?p = [] then g\<lparr>allPools := allPools g @ [pr]\<rparr> else g)"
    define p0 where "p0 = ?p\<lparr>local := make_locals (GOMAXPROCS sc), localSize := GOMAXPROCS sc\<rparr>"
    define l where "l = (\<lparr>private_slot = None, shared = []\<rparr> :: 'a poolLocal)"
    define p1 where "p1 = p0\<lparr>local := (local p0)[?i := l\<lparr>private_slot := Some v\<rparr>]\<rparr>"
    define g1 where "g1 = set_pool g0 pr p1"
    have pin0: "pin rt sc g pr = Ret (set_pool g0 pr p0, ?i)"
      unfolding g0_def p0_def using a by (intro pin_slow) simp_all
    have nth: "local p0 ! ?i = l"
      using a by (simp add: p0_def make_locals_def l_def)
    have l0: "private_slot l = None" by (simp add: l_def)
    have put: "Pool_Put rt sc g pr (Some v) = Ret g1"
      by (simp add: Pool_Put_def pin0 Let_def pools_set_pool nth set_pool_twice nk l0
            g1_def p1_def)
    have p1: "pools g1 pr = p1" by (simp add: g1_def pools_set_pool)
    have sz: "localSize p1 = GOMAXPROCS sc" "length (local p1) = GOMAXPROCS sc"
      by (simp_all add: p1_def p0_def make_locals_def)
    have pin1: "pin rt sc g1 pr = Ret (g1, ?i)"
      using a by (intro pin_fast) (simp_all add: p1 sz)
    have slot: "private_slot (local p1 ! ?i) = Some v"
      using a by (simp add: p1_def p0_def make_locals_def)
    have get: "\<exists>g2. Pool_Get rt sc g1 pr = Ret (Some v, g2)"
      by (simp add: Pool_Get_def pin1 Let_def p1 slot pools_set_pool split: option.splits)
    from put get show "\<exists>g1 g2. Pool_Put rt sc g pr (Some v) = Ret g1
        \<and> Pool_Get rt sc g1 pr = Ret (Some v, g2)" by blast
  }
qed

theorem Put_then_Get_witness:
  "\<not> (race_Enabled sc0 \<and> fastrandn sc0 4 = 0)
   \<and> procPin sc0 < localSize (pools (globals_of pool_empty) 0)
   \<and> localSize (pools (globals_of pool_empty) 0) \<le> length (local (pools (globals_of pool_empty) 0))
   \<and> private_slot (local (pools (globals_of pool_empty) 0) ! procPin sc0) = None
   \<and> (\<exists>g1. Pool_Put rt0 sc0 (globals_of pool_empty) 0 (Some 7) = Ret g1
            \<and> Pool_Get rt0 sc0 g1 0 = Ret (Some 7, globals_of pool_empty))
   \<and> procPin sc0 < localSize (pools (globals_of pool_held) 0)
   \<and> localSize (pools (globals_of pool_held) 0) \<le> length (local (pools (globals_of pool_held) 0))
   \<and> private_slot (local (pools (globals_of pool_held) 0) ! procPin sc0) = Some 1
   \<and> (\<exists>g1 g2. Pool_Put rt0 sc0 (globals_of pool_held) 0 (Some 7) = Ret g1
            \<and> Pool_Get rt0 sc0 g1 0 = Ret (Some 1, g2))
   \<and> localSize (pools (globals_of pool_zero) 0) \<le> procPin sc0
   \<and> procPin sc0 < GOMAXPROCS sc0
   \<and> state (allPoolsMu (globals_of pool_zero)) = 0
   \<and> (\<exists>g1 g2. Pool_Put rt0 sc0 (globals_of pool_zero) 0 (Some 7) = Ret g1
            \<and> Pool_Get rt0 sc0 g1 0 = Ret (Some 7, g2))"
proof -
  have kept: "\<not> (race_Enabled sc0 \<and> fastrandn sc0 4 = 0)" by (simp add: sc0_def)
  have a: "procPin sc0 < localSize (pools (globals_of pool_empty) 0)
      \<and> localSize (pools (globals_of pool_empty) 0) \<le> length (local (pools (globals_of pool_empty) 0))
      \<and> private_slot (local (pools (globals_of pool_empty) 0) ! procPin sc0) = None"
    by (simp add: sc0_def globals_of_def pool_empty_def)
  have b: "procPin sc0 < localSize (pools (globals_of pool_held) 0)
      \<and> localSize (pools (globals_of pool_held) 0) \<le> length (local (pools (globals_of pool_held) 0))
      \<and> private_slot (local (pools (globals_of pool_held) 0) ! procPin sc0) = Some 1"
    by (simp add: sc0_def globals_of_def pool_held_def)
  have c: "localSize (pools (globals_of pool_zero) 0) \<le> procPin sc0
      \<and> procPin sc0 < GOMAXPROCS sc0
      \<and> state (allPoolsMu (globals_of pool_zero)) = 0"
    by (simp add: sc0_def globals_of_def pool_zero_def)
  note t1 = Put_then_Get [OF kept, where g = "globals_of pool_empty" and pr = 0 and v = 7
      and rt = rt0, THEN conjunct1, rule_format, OF a]
  note t2 = Put_then_Get [OF kept, where g = "globals_of pool_held" and pr = 0 and v = 7
      and y = 1 and rt = rt0, THEN conjunct2, THEN conjunct1, rule_format, OF b]
  note t3 = Put_then_Get [OF kept, where g = "globals_of pool_zero" and pr = 0 and v = 7
      and rt = rt0, THEN conjunct2, THEN conjunct2, rule_format, OF c]
  from kept a b c t1 t2 t3 show ?thesis by blast
qed

text \<open>
  C8 as the specification words it does not hold where the private slot is taken: with the item 1
  in the private slot of the only shard, \<^verbatim>\<open>Put\<close> of 2 lands on the chain and the
  \<^verbatim>\<open>Get\<close> that follows returns 1.
\<close>

theorem Put_then_Get_other_item:
  "Pool_Put rt0 sc0 (globals_of pool_held) 0 (Some 2)
     = Ret (set_pool (globals_of pool_held) 0
              (pool_held\<lparr>local := [\<lparr>private_slot = Some 1, shared = [2]\<rparr>]\<rparr>))
   \<and> Pool_Get rt0 sc0
         (set_pool (globals_of pool_held) 0
            (pool_held\<lparr>local := [\<lparr>private_slot = Some 1, shared = [2]\<rparr>]\<rparr>)) 0
     = Ret (Some 1,
            set_pool (globals_of pool_held) 0
              (pool_held\<lparr>local := [\<lparr>private_slot = None, shared = [2]\<rparr>]\<rparr>))"
  by (simp add: Pool_Put_def Pool_Get_def pin_def indexLocal_def Let_def sc0_def globals_of_def
        pool_held_def set_pool_def pushHead_def)

end
